theory Spec2Isabelle
  imports Main
begin

section \<open>The shadow style injector of questionai.js\<close>

text \<open>
  The script has two functions, \<^verbatim>\<open>waitForElement\<close> and
  \<^verbatim>\<open>injectCssIntoPlasmoHost\<close>, and two constants. Both functions work on the
  live document, so the embedding passes the document explicitly and returns it
  updated. The part of the browser the script relies on (selector lookup, shadow roots,
  the mutation observer, the timer) is modelled first; the two functions follow, clause
  by clause as they are written.
\<close>

subsection \<open>Module constants\<close>

definition HOST_IDS :: "string list" where
  "HOST_IDS = [''qaiSidebarShadowHostEl'', ''qaiUnderlineWordShadowHostEl'',
               ''qaiSidebarShadowHostEl'']"

definition STYLE_ID :: string where
  "STYLE_ID = ''my-custom-shadow-style''"

subsection \<open>The document\<close>

text \<open>
  A shadow root is the list of its child elements in tree order; a node has a tag, an
  id and a text content. A host element either has no shadow root, an open one or a
  closed one. The property \<^verbatim>\<open>shadowRoot\<close> of a host shows only an open root.
  \<^verbatim>\<open>attachShadow\<close> may be missing from the host (\<open>attachShadowIsFunction\<close>
  false); when it is called it raises on a host that already has a shadow root, open or
  closed, and on a host whose element definition does not permit one, and otherwise
  creates an empty open root. The document is the list of its elements in document
  order, and an element is referred to by its position.
\<close>

record node =
  nodeName :: string
  nodeId :: string
  textContent :: string

datatype shadow_state = NoShadow | OpenShadow "node list" | ClosedShadow "node list"

record element =
  tagName :: string
  elemId :: string
  shadow :: shadow_state
  attachShadowIsFunction :: bool
  shadowPermitted :: bool

type_synonym document = "element list"

datatype js_error = NotSupportedError | SyntaxError | TypeError | Error string

fun first_index :: "('a \<Rightarrow> bool) \<Rightarrow> 'a list \<Rightarrow> nat option" where
  "first_index P [] = None"
| "first_index P (x # xs) = (if P x then Some 0 else map_option Suc (first_index P xs))"

text \<open>
  Selectors. The script builds selectors of the form \<^verbatim>\<open>tag#id\<close> only, and the
  lookup covers two classes of strings: those of that form, with a tag of lower-case
  letters, digits and hyphens and an id of letters, digits, hyphens and underscores,
  each starting with a letter (\<open>tag_id_selector\<close>), and, of the strings that
  \<^verbatim>\<open>document.querySelector\<close> refuses with a SyntaxError, the empty string and a tag
  followed by a bare \<^verbatim>\<open>#\<close> (\<open>refused\<close>). A selector of the first class matches
  the elements with that tag and that id (the document is taken to be in no-quirks
  mode, where ids are compared as they are written); as neither part contains
  \<^verbatim>\<open>#\<close>, that is the equation of \<open>matches\<close>. Selectors of other forms are not
  modelled, and no property below is stated for them.
\<close>

definition lower :: "char \<Rightarrow> bool" where
  "lower c = (c \<in> set ''abcdefghijklmnopqrstuvwxyz'')"

definition upper :: "char \<Rightarrow> bool" where
  "upper c = (c \<in> set ''ABCDEFGHIJKLMNOPQRSTUVWXYZ'')"

definition digit :: "char \<Rightarrow> bool" where
  "digit c = (c \<in> set ''0123456789'')"

definition tag_name :: "string \<Rightarrow> bool" where
  "tag_name t =
     (case t of [] \<Rightarrow> False
      | c # cs \<Rightarrow> lower c \<and> list_all (\<lambda>c. lower c \<or> digit c \<or> c = CHR ''-'') cs)"

definition id_name :: "string \<Rightarrow> bool" where
  "id_name i =
     (case i of [] \<Rightarrow> False
      | c # cs \<Rightarrow>
          (lower c \<or> upper c) \<and>
          list_all (\<lambda>c. lower c \<or> upper c \<or> digit c \<or> c = CHR ''-'' \<or> c = CHR ''_'') cs)"


definition refused :: "string \<Rightarrow> bool" where
  "refused selector =
     (if selector = [] then True
      else if dropWhile (\<lambda>c. c \<noteq> CHR ''#'') selector = ''#''
      then tag_name (takeWhile (\<lambda>c. c \<noteq> CHR ''#'') selector)
      else False)"

definition matches :: "string \<Rightarrow> element \<Rightarrow> bool" where
  "matches selector e = (selector = tagName e @ ''#'' @ elemId e)"

text \<open>
  \<^verbatim>\<open>document.querySelector(selector)\<close>: the SyntaxError it throws (\<open>Inl\<close>), or
  the first matching element, if any (\<open>Inr\<close>).
\<close>

definition querySelector :: "document \<Rightarrow> string \<Rightarrow> js_error + nat option" where
  "querySelector doc selector =
     (if refused selector then Inl SyntaxError
      else Inr (first_index (matches selector) doc))"

definition getElementById :: "node list \<Rightarrow> string \<Rightarrow> nat option" where
  "getElementById sr i = first_index (\<lambda>n. nodeId n = i) sr"

definition createElement :: "string \<Rightarrow> node" where
  "createElement tag = \<lparr>nodeName = tag, nodeId = [], textContent = []\<rparr>"

definition shadowRoot :: "element \<Rightarrow> node list option" where
  "shadowRoot e = (case shadow e of OpenShadow sr \<Rightarrow> Some sr | _ \<Rightarrow> None)"

text \<open>
  \<^verbatim>\<open>hostEl.attachShadow({ mode: 'open' })\<close>: the host with its new root, and the
  (empty) root, or the error raised.
\<close>

definition attachShadow :: "element \<Rightarrow> js_error + element \<times> node list" where
  "attachShadow e =
     (if shadow e = NoShadow \<and> shadowPermitted e
      then Inr (e\<lparr>shadow := OpenShadow []\<rparr>, [])
      else Inl NotSupportedError)"

subsection \<open>Promises, the observer and the timer\<close>

text \<open>
  While a call is suspended the page goes on. An event is either a child-list mutation,
  here the insertion of one more element at the end of the document, which the browser
  reports to every connected observer, or the firing of the timer of the wait in
  progress. A finite list of events is what has happened so far; a promise that is
  still \<open>Pending\<close> after it has not settled by then.
\<close>

datatype event = Added element | TimerFired

datatype 'a promise = Pending | Fulfilled 'a | Rejected js_error

fun page_step :: "event \<Rightarrow> document \<Rightarrow> document" where
  "page_step (Added e) doc = doc @ [e]"
| "page_step TimerFired doc = doc"

text \<open>
  The state of one call of \<^verbatim>\<open>waitForElement\<close>: its promise, the number of observers
  it has installed, whether its observer is connected, how often
  \<^verbatim>\<open>observer.disconnect()\<close> has been called, and whether its timer is armed and has
  not fired.
\<close>

record wait_state =
  outcome :: "nat promise"
  observers :: nat
  connected :: bool
  disconnects :: nat
  timer_armed :: bool

definition resolve :: "nat \<Rightarrow> wait_state \<Rightarrow> wait_state" where
  "resolve el st = (if outcome st = Pending then st\<lparr>outcome := Fulfilled el\<rparr> else st)"

definition reject :: "js_error \<Rightarrow> wait_state \<Rightarrow> wait_state" where
  "reject err st = (if outcome st = Pending then st\<lparr>outcome := Rejected err\<rparr> else st)"

definition disconnect :: "wait_state \<Rightarrow> wait_state" where
  "disconnect st = st\<lparr>connected := False, disconnects := disconnects st + 1\<rparr>"

subsection \<open>waitForElement\<close>

text \<open>
  The executor of the promise, run at the call: an exception thrown by the lookup
  rejects the promise; an immediate match resolves it; in both cases nothing is
  installed. Otherwise one observer is installed on the document and, when
  \<open>timeout > 0\<close>, the timer is armed.
\<close>

definition waitForElement :: "string \<Rightarrow> int \<Rightarrow> document \<Rightarrow> wait_state" where
  "waitForElement selector timeout doc =
     (case querySelector doc selector of
        Inl err \<Rightarrow>
          \<lparr>outcome = Rejected err, observers = 0, connected = False, disconnects = 0,
           timer_armed = False\<rparr>
      | Inr (Some el) \<Rightarrow>
          \<lparr>outcome = Fulfilled el, observers = 0, connected = False, disconnects = 0,
           timer_armed = False\<rparr>
      | Inr None \<Rightarrow>
          \<lparr>outcome = Pending, observers = 1, connected = True, disconnects = 0,
           timer_armed = (timeout > 0)\<rparr>)"

text \<open>
  The callback of the observer, run on the document as it is at the delivery. (An
  exception of the lookup would end the callback; the observer is installed only after
  the same lookup has succeeded at the call.)
\<close>

definition observer_callback :: "string \<Rightarrow> document \<Rightarrow> wait_state \<Rightarrow> wait_state" where
  "observer_callback selector doc st =
     (case querySelector doc selector of
        Inr (Some found) \<Rightarrow> resolve found (disconnect st)
      | Inr None \<Rightarrow> st
      | Inl err \<Rightarrow> st)"

text \<open>The callback of the timer.\<close>

definition timer_callback :: "string \<Rightarrow> wait_state \<Rightarrow> wait_state" where
  "timer_callback selector st =
     reject (Error (''Timed out waiting for '' @ selector)) (disconnect st)"

text \<open>
  The event loop: a mutation is delivered to the observer while it is connected, and
  the timer fires once if it was armed. Nothing in the script clears the timer.
\<close>

fun deliver :: "string \<Rightarrow> document \<Rightarrow> event \<Rightarrow> wait_state \<Rightarrow> wait_state" where
  "deliver selector doc (Added e) st =
     (if connected st then observer_callback selector doc st else st)"
| "deliver selector doc TimerFired st =
     (if timer_armed st then timer_callback selector (st\<lparr>timer_armed := False\<rparr>) else st)"

text \<open>The whole lifetime of a call: every event, also those after the promise settled.\<close>

fun run_wait :: "string \<Rightarrow> document \<Rightarrow> wait_state \<Rightarrow> event list \<Rightarrow> wait_state" where
  "run_wait selector doc st [] = st"
| "run_wait selector doc st (ev # evs) =
     run_wait selector (page_step ev doc) (deliver selector (page_step ev doc) ev st) evs"

text \<open>
  \<^verbatim>\<open>await\<close> on the promise: the caller resumes as soon as the promise has settled,
  with the document as it is then and the events still to come.
\<close>

fun await :: "string \<Rightarrow> document \<Rightarrow> wait_state \<Rightarrow> event list \<Rightarrow>
    wait_state \<times> document \<times> event list" where
  "await selector doc st [] = (st, doc, [])"
| "await selector doc st (ev # evs) =
     (if outcome st \<noteq> Pending then (st, doc, ev # evs)
      else await selector (page_step ev doc) (deliver selector (page_step ev doc) ev st) evs)"

subsection \<open>injectCssIntoPlasmoHost\<close>

record result =
  hostId :: string
  ok :: bool
  reason :: "string option"
  used :: "string option"

definition failure :: "string \<Rightarrow> string \<Rightarrow> result" where
  "failure h r = \<lparr>hostId = h, ok = False, reason = Some r, used = None\<rparr>"

definition success :: "string \<Rightarrow> string \<Rightarrow> result" where
  "success h u = \<lparr>hostId = h, ok = True, reason = None, used = Some u\<rparr>"

text \<open>
  The branch for a host with an accessible shadow root: the node found by
  \<^verbatim>\<open>getElementById(STYLE_ID)\<close> gets the text, or a new style node is appended first.
\<close>

definition upsert_style :: "string \<Rightarrow> node list \<Rightarrow> node list" where
  "upsert_style cssText sr =
     (case getElementById sr STYLE_ID of
        Some j \<Rightarrow> sr[j := (sr ! j)\<lparr>textContent := cssText\<rparr>]
      | None \<Rightarrow> sr @ [(createElement ''style'')\<lparr>nodeId := STYLE_ID, textContent := cssText\<rparr>])"

text \<open>
  What the loop body does to a host that was found: the host afterwards, and the
  failure reason (\<open>Inl\<close>) or the success mode (\<open>Inr\<close>) it pushes. The
  \<^verbatim>\<open>try\<close> around \<^verbatim>\<open>attachShadow\<close> is the case distinction on its result.
\<close>

definition inject_into :: "string \<Rightarrow> element \<Rightarrow> element \<times> (string + string)" where
  "inject_into cssText hostEl =
     (case shadowRoot hostEl of
        Some sr \<Rightarrow>
          (hostEl\<lparr>shadow := OpenShadow (upsert_style cssText sr)\<rparr>,
           Inr ''existing-open-shadowRoot'')
      | None \<Rightarrow>
          if attachShadowIsFunction hostEl then
            (case attachShadow hostEl of
               Inr (hostEl', sr) \<Rightarrow>
                 (hostEl'\<lparr>shadow := OpenShadow
                    (sr @ [(createElement ''style'')\<lparr>nodeId := STYLE_ID,
                                                      textContent := cssText\<rparr>])\<rparr>,
                  Inr ''attached-new-open-shadowRoot'')
             | Inl err \<Rightarrow> (hostEl, Inl ''attach-failed''))
          else (hostEl, Inl ''closed-or-no-attach''))"

text \<open>The selector the loop derives from a host identifier.\<close>

definition selector_of :: "string \<Rightarrow> string" where
  "selector_of h = ''plasmo-csui#'' @ h"

text \<open>
  The host lookup of one iteration: \<open>None\<close> while the awaited promise has not
  settled, otherwise what the \<^verbatim>\<open>try\<close> block yields, the value of \<^verbatim>\<open>hostEl\<close>
  (\<open>Inr\<close>) or the exception thrown into it (\<open>Inl\<close>).
\<close>

definition find_host :: "bool \<Rightarrow> int \<Rightarrow> string \<Rightarrow> document \<Rightarrow> event list \<Rightarrow>
    (js_error + nat option) option \<times> document \<times> event list" where
  "find_host wait waitTimeout selector doc evs =
     (if wait then
        (case await selector doc (waitForElement selector waitTimeout doc) evs of
           (st, doc', evs') \<Rightarrow>
             (case outcome st of
                Pending \<Rightarrow> (None, doc', evs')
              | Fulfilled el \<Rightarrow> (Some (Inr (Some el)), doc', evs')
              | Rejected err \<Rightarrow> (Some (Inl err), doc', evs')))
      else (Some (querySelector doc selector), doc, evs))"

text \<open>
  One iteration of the loop: the record pushed (\<open>None\<close> when the iteration is still
  suspended in its \<^verbatim>\<open>await\<close>), the document and the events left.
\<close>

definition host_step :: "string \<Rightarrow> bool \<Rightarrow> int \<Rightarrow> string \<Rightarrow> document \<Rightarrow> event list \<Rightarrow>
    result option \<times> document \<times> event list" where
  "host_step cssText wait waitTimeout h doc evs =
     (case find_host wait waitTimeout (selector_of h) doc evs of
        (None, doc', evs') \<Rightarrow> (None, doc', evs')
      | (Some (Inl err), doc', evs') \<Rightarrow> (Some (failure h ''host-not-found''), doc', evs')
      | (Some (Inr None), doc', evs') \<Rightarrow> (Some (failure h ''host-not-found''), doc', evs')
      | (Some (Inr (Some i)), doc', evs') \<Rightarrow>
          (case inject_into cssText (doc' ! i) of
             (e', Inr u) \<Rightarrow> (Some (success h u), doc'[i := e'], evs')
           | (e', Inl r) \<Rightarrow> (Some (failure h r), doc'[i := e'], evs')))"

text \<open>
  A call of the asynchronous function: the promise it returned, the document, and the
  records pushed so far.
\<close>

record run =
  returned :: "result list promise"
  dom :: document
  pushed :: "result list"

fun for_hosts :: "string \<Rightarrow> bool \<Rightarrow> int \<Rightarrow> string list \<Rightarrow> document \<Rightarrow> event list \<Rightarrow>
    result list \<Rightarrow> run" where
  "for_hosts cssText wait waitTimeout [] doc evs results =
     \<lparr>returned = Fulfilled results, dom = doc, pushed = results\<rparr>"
| "for_hosts cssText wait waitTimeout (h # hs) doc evs results =
     (case host_step cssText wait waitTimeout h doc evs of
        (None, doc', evs') \<Rightarrow> \<lparr>returned = Pending, dom = doc', pushed = results\<rparr>
      | (Some r, doc', evs') \<Rightarrow> for_hosts cssText wait waitTimeout hs doc' evs' (results @ [r]))"

text \<open>The body of the function, with \<open>wait\<close> and \<open>waitTimeout\<close> as destructured.\<close>

definition injectCssIntoPlasmoHost :: "string \<Rightarrow> bool \<Rightarrow> int \<Rightarrow> document \<Rightarrow> event list \<Rightarrow> run"
  where
  "injectCssIntoPlasmoHost cssText wait waitTimeout doc evs =
     for_hosts cssText wait waitTimeout HOST_IDS doc evs []"

text \<open>
  The second argument as the caller passes it, and the parameter
  \<^verbatim>\<open>{ wait = true, waitTimeout = 5000 } = {}\<close>: an argument that is left out gets the
  default object, a property that is left out gets its default, and destructuring
  \<^verbatim>\<open>null\<close> throws a TypeError, which rejects the promise of the asynchronous function
  before its body runs.
\<close>

datatype options = NullOptions | NoOptions | Options "bool option" "int option"

definition call_with_options :: "string \<Rightarrow> options \<Rightarrow> document \<Rightarrow> event list \<Rightarrow> run" where
  "call_with_options cssText opts doc evs =
     (case opts of
        NullOptions \<Rightarrow> \<lparr>returned = Rejected TypeError, dom = doc, pushed = []\<rparr>
      | NoOptions \<Rightarrow> injectCssIntoPlasmoHost cssText True 5000 doc evs
      | Options w t \<Rightarrow>
          injectCssIntoPlasmoHost cssText (case w of None \<Rightarrow> True | Some b \<Rightarrow> b)
            (case t of None \<Rightarrow> 5000 | Some n \<Rightarrow> n) doc evs)"

subsection \<open>Notions used to state the properties\<close>

text \<open>The elements the page inserts during a list of events, in order.\<close>

fun added :: "event list \<Rightarrow> element list" where
  "added [] = []"
| "added (Added e # evs) = e # added evs"
| "added (TimerFired # evs) = added evs"

text \<open>The nodes of a shadow root that bear the id \<open>STYLE_ID\<close>.\<close>

definition styled :: "node list \<Rightarrow> node list" where
  "styled sr = filter (\<lambda>n. nodeId n = STYLE_ID) sr"

text \<open>An element whose accessible shadow root, if any, has at most one such node.\<close>

definition style_unique :: "element \<Rightarrow> bool" where
  "style_unique e = (case shadowRoot e of Some sr \<Rightarrow> length (styled sr) \<le> 1 | None \<Rightarrow> True)"


text \<open>Two elements with the same tag and the same id: no selector tells them apart.\<close>

definition same_host :: "element \<Rightarrow> element \<Rightarrow> bool" where
  "same_host a b = (tagName a = tagName b \<and> elemId a = elemId b)"

text \<open>
  The waits of a call all settle: the wait for each identifier of the list, started on
  the document and the events the wait before it has left, has settled within the
  events. (What the loop body does to a host changes neither tag nor id, so the waits do
  not depend on it.)
\<close>

fun waits_settle :: "int \<Rightarrow> string list \<Rightarrow> document \<Rightarrow> event list \<Rightarrow> bool" where
  "waits_settle t [] doc evs = True"
| "waits_settle t (h # hs) doc evs =
     (case await (selector_of h) doc (waitForElement (selector_of h) t doc) evs of
        (st, doc', evs') \<Rightarrow> outcome st \<noteq> Pending \<and> waits_settle t hs doc' evs')"

text \<open>A result record is a failure with one of the three reasons or a success with one
  of the two modes, never both.\<close>

definition well_formed :: "result \<Rightarrow> bool" where
  "well_formed r =
     (if ok r
      then reason r = None \<and>
           (used r = Some ''existing-open-shadowRoot'' \<or>
            used r = Some ''attached-new-open-shadowRoot'')
      else used r = None \<and>
           (reason r = Some ''host-not-found'' \<or> reason r = Some ''attach-failed'' \<or>
            reason r = Some ''closed-or-no-attach''))"

text \<open>The record an iteration pushes for a host, from the reason or mode of its branch.\<close>

definition record_of :: "string \<Rightarrow> string + string \<Rightarrow> result" where
  "record_of h tag = (case tag of Inr u \<Rightarrow> success h u | Inl r \<Rightarrow> failure h r)"

text \<open>
  The bookkeeping of a wait that did not resolve at its call: one observer; while the
  promise is pending the observer is connected, \<^verbatim>\<open>disconnect\<close> has not been called
  and the timer is armed exactly for a positive timeout; a resolved wait has called it
  once, and once more when its timer has fired since; a rejected wait has called it
  once.
\<close>

definition wait_inv :: "int \<Rightarrow> wait_state \<Rightarrow> bool" where
  "wait_inv t st =
     (observers st = 1 \<and>
      (case outcome st of
         Pending \<Rightarrow> connected st \<and> disconnects st = 0 \<and> timer_armed st = (0 < t)
       | Fulfilled el \<Rightarrow>
           \<not> connected st \<and> (timer_armed st \<longrightarrow> 0 < t) \<and>
           disconnects st = (if 0 < t \<and> \<not> timer_armed st then 2 else 1)
       | Rejected err \<Rightarrow>
           \<not> connected st \<and> disconnects st = 1 \<and> \<not> timer_armed st \<and> 0 < t))"

subsection \<open>Example documents\<close>

definition plasmo_host :: "string \<Rightarrow> shadow_state \<Rightarrow> element" where
  "plasmo_host h s =
     \<lparr>tagName = ''plasmo-csui'', elemId = h, shadow = s, attachShadowIsFunction = True,
      shadowPermitted = True\<rparr>"

definition sidebar :: string where
  "sidebar = ''qaiSidebarShadowHostEl''"

definition underline :: string where
  "underline = ''qaiUnderlineWordShadowHostEl''"

definition style_node :: "string \<Rightarrow> node" where
  "style_node c = \<lparr>nodeName = ''style'', nodeId = STYLE_ID, textContent = c\<rparr>"


definition duplicate_doc :: document where
  "duplicate_doc = [plasmo_host sidebar (OpenShadow [style_node ''a'', style_node ''b''])]"

definition fresh_doc :: document where
  "fresh_doc = [plasmo_host sidebar NoShadow]"

definition closed_doc :: document where
  "closed_doc = [plasmo_host sidebar (ClosedShadow [])]"

section \<open>Properties of the embedding\<close>

subsection \<open>Lookup by position\<close>

lemma first_index_Some_iff:
  "first_index P xs = Some i \<longleftrightarrow> i < length xs \<and> P (xs ! i) \<and> (\<forall>k<i. \<not> P (xs ! k))"
proof (induction xs arbitrary: i)
  case Nil
  then show ?case by simp
next
  case (Cons x xs)
  show ?case
  proof (cases "P x")
    case True
    then show ?thesis by (cases i) auto
  next
    case False
    then show ?thesis
      by (cases i) (auto simp: Cons.IH less_Suc_eq_0_disj)
  qed
qed

lemma first_index_None_iff: "first_index P xs = None \<longleftrightarrow> (\<forall>x\<in>set xs. \<not> P x)"
  by (induction xs) auto

lemma first_index_stable:
  assumes "first_index P xs = Some i" and "length xs \<le> length ys"
    and "\<And>k. k < length xs \<Longrightarrow> P (ys ! k) = P (xs ! k)"
  shows "first_index P ys = Some i"
  using assms unfolding first_index_Some_iff by auto

lemma first_index_snoc:
  "first_index P (xs @ [x]) =
     (case first_index P xs of Some i \<Rightarrow> Some i | None \<Rightarrow> if P x then Some (length xs) else None)"
  by (induction xs) (auto split: option.splits)

lemma filter_first_only:
  assumes "first_index P xs = Some j" and "length (filter P xs) \<le> 1"
  shows "filter P (xs[j := y]) = (if P y then [y] else [])"
proof -
  from assms(1) have j: "j < length xs" "P (xs ! j)" "\<forall>k<j. \<not> P (xs ! k)"
    by (auto simp: first_index_Some_iff)
  have split: "xs = take j xs @ xs ! j # drop (Suc j) xs"
    using j(1) by (simp add: id_take_nth_drop)
  have pre: "filter P (take j xs) = []"
    using j(3) by (auto simp: filter_empty_conv in_set_conv_nth)
  have "length (filter P xs) = length (filter P (take j xs)) + 1 + length (filter P (drop (Suc j) xs))"
    using j(2) by (subst split) simp
  with assms(2) have post: "filter P (drop (Suc j) xs) = []" by simp
  have "xs[j := y] = take j xs @ y # drop (Suc j) xs"
    using j(1) by (simp add: upd_conv_take_nth_drop)
  then show ?thesis using pre post by simp
qed


lemma querySelector_Inr:
  "querySelector doc s = Inr v \<longleftrightarrow> \<not> refused s \<and> first_index (matches s) doc = v"
  by (simp add: querySelector_def)

lemma querySelector_Some_iff:
  "querySelector doc s = Inr (Some i) \<longleftrightarrow>
     \<not> refused s \<and> i < length doc \<and> matches s (doc ! i) \<and> (\<forall>k<i. \<not> matches s (doc ! k))"
  by (simp add: querySelector_Inr first_index_Some_iff)

lemma querySelector_None_iff:
  "querySelector doc s = Inr None \<longleftrightarrow> \<not> refused s \<and> (\<forall>e\<in>set doc. \<not> matches s e)"
  by (simp add: querySelector_Inr first_index_None_iff)

lemma querySelector_snoc_None:
  "querySelector doc s = Inr None \<Longrightarrow>
     querySelector (doc @ [e]) s = Inr (if matches s e then Some (length doc) else None)"
  by (simp add: querySelector_def first_index_snoc split: if_splits)


lemma selector_of_refused: "refused (selector_of h) \<longleftrightarrow> h = []"
  by (simp add: refused_def selector_of_def tag_name_def lower_def digit_def)


lemma HOST_IDS_names: "h \<in> set HOST_IDS \<Longrightarrow> id_name h"
  by (auto simp: HOST_IDS_def id_name_def lower_def upper_def digit_def)

subsection \<open>The style upsert\<close>

lemma styled_by_ids:
  "length (styled sr) = length (filter (\<lambda>i. i = STYLE_ID) (map nodeId sr))"
  by (induction sr) (auto simp: styled_def)

lemma styled_upsert_count:
  "length (styled (upsert_style c sr)) = max 1 (length (styled sr))"
proof (cases "getElementById sr STYLE_ID")
  case None
  then have "styled sr = []"
    by (auto simp: getElementById_def styled_def first_index_None_iff filter_empty_conv)
  with None show ?thesis
    by (simp add: upsert_style_def styled_def createElement_def)
next
  case (Some j)
  then have j: "j < length sr" "nodeId (sr ! j) = STYLE_ID"
    by (auto simp: getElementById_def first_index_Some_iff)
  have "map nodeId (sr[j := (sr ! j)\<lparr>textContent := c\<rparr>]) = map nodeId sr"
    using j by (simp add: map_update list_update_same_conv)
  then have "length (styled (sr[j := (sr ! j)\<lparr>textContent := c\<rparr>])) = length (styled sr)"
    by (simp add: styled_by_ids)
  moreover have "sr ! j \<in> set (styled sr)"
    using j by (auto simp: styled_def)
  then have "1 \<le> length (styled sr)"
    by (cases "styled sr") auto
  ultimately show ?thesis using Some by (simp add: upsert_style_def)
qed

lemma styled_upsert_single:
  assumes "length (styled sr) \<le> 1"
  shows "map textContent (styled (upsert_style c sr)) = [c]"
proof (cases "getElementById sr STYLE_ID")
  case None
  then have "styled sr = []"
    by (auto simp: getElementById_def styled_def first_index_None_iff filter_empty_conv)
  with None show ?thesis
    by (simp add: upsert_style_def styled_def createElement_def)
next
  case (Some j)
  then have j: "j < length sr" "nodeId (sr ! j) = STYLE_ID"
    by (auto simp: getElementById_def first_index_Some_iff)
  from Some assms show ?thesis
    using j by (simp add: upsert_style_def styled_def getElementById_def filter_first_only)
qed

lemma upsert_length:
  "length (upsert_style c sr) =
     (if getElementById sr STYLE_ID = None then length sr + 1 else length sr)"
  by (auto simp: upsert_style_def split: option.splits)




lemma upsert_style_node: "upsert_style c [style_node c'] = [style_node c]"
  by (simp add: upsert_style_def getElementById_def style_node_def)

subsection \<open>The loop body on one host\<close>

lemma inject_into_ids:
  "tagName (fst (inject_into c e)) = tagName e \<and> elemId (fst (inject_into c e)) = elemId e"
  by (auto simp: inject_into_def attachShadow_def split: option.splits sum.splits if_splits)

lemma inject_into_matches: "matches s (fst (inject_into c e)) = matches s e"
  by (simp add: matches_def inject_into_ids)

lemma inject_into_open:
  "shadow e = OpenShadow sr \<Longrightarrow>
     inject_into c e = (e\<lparr>shadow := OpenShadow (upsert_style c sr)\<rparr>, Inr ''existing-open-shadowRoot'')"
  by (simp add: inject_into_def shadowRoot_def)

lemma inject_into_fresh:
  "shadow e = NoShadow \<Longrightarrow> attachShadowIsFunction e \<Longrightarrow> shadowPermitted e \<Longrightarrow>
     inject_into c e = (e\<lparr>shadow := OpenShadow [style_node c]\<rparr>, Inr ''attached-new-open-shadowRoot'')"
  by (simp add: inject_into_def shadowRoot_def attachShadow_def style_node_def createElement_def)

lemma inject_into_closed:
  "shadow e = ClosedShadow sr \<Longrightarrow>
     inject_into c e =
       (e, Inl (if attachShadowIsFunction e then ''attach-failed'' else ''closed-or-no-attach''))"
  by (simp add: inject_into_def shadowRoot_def attachShadow_def)

lemma inject_into_style_unique:
  "style_unique e \<Longrightarrow> style_unique (fst (inject_into c e))"
proof (cases "shadow e")
  case NoShadow
  then show ?thesis
    by (auto simp: inject_into_def shadowRoot_def attachShadow_def style_unique_def
        styled_def createElement_def)
next
  case (OpenShadow sr)
  assume "style_unique e"
  with OpenShadow have "length (styled sr) \<le> 1"
    by (simp add: style_unique_def shadowRoot_def)
  then have "length (styled (upsert_style c sr)) \<le> 1"
    by (simp add: styled_upsert_count)
  with OpenShadow show ?thesis
    by (simp add: inject_into_open style_unique_def shadowRoot_def)
next
  case (ClosedShadow sr)
  then show ?thesis
    by (simp add: inject_into_closed style_unique_def shadowRoot_def)
qed

lemma inject_into_keeps_open:
  "\<exists>x. shadow e = OpenShadow x \<Longrightarrow> \<exists>x. shadow (fst (inject_into c e)) = OpenShadow x"
  by (auto simp: inject_into_open)

lemma inject_into_open_tag:
  "\<exists>x. shadow e = OpenShadow x \<Longrightarrow> snd (inject_into c e) = Inr ''existing-open-shadowRoot''"
  by (auto simp: inject_into_open)

lemma inject_into_single:
  assumes "\<exists>sr. shadow e = OpenShadow sr \<and> length (styled sr) \<le> 1"
  shows "\<exists>sr. shadow (fst (inject_into c e)) = OpenShadow sr \<and> map textContent (styled sr) = [c]"
proof -
  from assms obtain sr where sr: "shadow e = OpenShadow sr" "length (styled sr) \<le> 1" by blast
  from styled_upsert_single[OF sr(2), of c] sr(1) show ?thesis
    by (simp add: inject_into_open)
qed

lemma selector_of_inj: "matches (selector_of h) e \<Longrightarrow> matches (selector_of h') e \<Longrightarrow> h = h'"
  unfolding matches_def selector_of_def by (metis same_append_eq)

subsection \<open>The lifetime of a wait\<close>



lemma deliver_inv: "wait_inv t st \<Longrightarrow> wait_inv t (deliver s doc ev st)"
  by (cases ev; cases "outcome st")
     (auto simp: wait_inv_def observer_callback_def timer_callback_def resolve_def reject_def
        disconnect_def split: option.splits sum.splits)

lemma run_wait_inv: "wait_inv t st \<Longrightarrow> wait_inv t (run_wait s doc st evs)"
  by (induction evs arbitrary: doc st) (simp_all add: deliver_inv)

lemma waitForElement_inv:
  "querySelector doc s = Inr None \<Longrightarrow> wait_inv t (waitForElement s t doc)"
  by (simp add: wait_inv_def waitForElement_def)


subsection \<open>Awaiting a wait\<close>

lemma await_settled: "outcome st \<noteq> Pending \<Longrightarrow> await s doc st evs = (st, doc, evs)"
  by (cases evs) auto

lemma page_step_added: "page_step ev doc @ added evs = doc @ added (ev # evs)"
  by (cases ev) auto

lemma await_shape:
  "await s doc st evs = (st', doc', evs') \<Longrightarrow>
     \<exists>consumed. evs = consumed @ evs' \<and> doc' = doc @ added consumed"
proof (induction evs arbitrary: doc st)
  case Nil
  then show ?case by auto
next
  case (Cons ev evs)
  show ?case
  proof (cases "outcome st = Pending")
    case False
    with Cons.prems have "evs' = ev # evs" "doc' = doc" by auto
    then show ?thesis by (intro exI[of _ "[]"]) simp
  next
    case True
    with Cons.prems
    have "await s (page_step ev doc) (deliver s (page_step ev doc) ev st) evs = (st', doc', evs')"
      by simp
    from Cons.IH[OF this] obtain consumed where
      c: "evs = consumed @ evs'" "doc' = page_step ev doc @ added consumed"
      by blast
    show ?thesis
      using c by (intro exI[of _ "ev # consumed"]) (simp add: page_step_added)
  qed
qed

lemma await_found:
  assumes "await s doc st evs = (st', doc', evs')"
    and "outcome st = Fulfilled j \<Longrightarrow> querySelector doc s = Inr (Some j)"
    and "outcome st' = Fulfilled j"
  shows "querySelector doc' s = Inr (Some j)"
  using assms
proof (induction evs arbitrary: doc st)
  case Nil
  then show ?case by auto
next
  case (Cons ev evs)
  show ?case
  proof (cases "outcome st = Pending")
    case False
    with Cons.prems show ?thesis by auto
  next
    case True
    let ?doc = "page_step ev doc"
    let ?st = "deliver s ?doc ev st"
    from True Cons.prems(1) have run: "await s ?doc ?st evs = (st', doc', evs')" by simp
    have "querySelector ?doc s = Inr (Some j)" if "outcome ?st = Fulfilled j"
      using that True
      by (cases ev)
         (auto simp: observer_callback_def resolve_def reject_def disconnect_def timer_callback_def
            split: if_splits option.splits sum.splits)
    from Cons.IH[OF run this Cons.prems(3)] show ?thesis .
  qed
qed

lemma await_never:
  assumes "outcome st = Pending" and "connected st" and "\<not> timer_armed st"
    and "querySelector doc s = Inr None" and "\<forall>e\<in>set (added evs). \<not> matches s e"
  shows "await s doc st evs = (st, doc @ added evs, [])"
  using assms
proof (induction evs arbitrary: doc)
  case Nil
  then show ?case by simp
next
  case (Cons ev evs)
  show ?case
  proof (cases ev)
    case TimerFired
    with Cons.prems have "deliver s doc ev st = st" by simp
    with Cons.IH[of doc] Cons.prems TimerFired show ?thesis by simp
  next
    case (Added e)
    with Cons.prems have q: "querySelector (doc @ [e]) s = Inr None"
      by (simp add: querySelector_snoc_None)
    with Cons.prems Added have "deliver s (doc @ [e]) ev st = st"
      by (simp add: observer_callback_def)
    with Cons.IH[of "doc @ [e]"] Cons.prems q Added show ?thesis by simp
  qed
qed

lemma find_host_shape:
  "find_host w t s doc evs = (r, doc', evs') \<Longrightarrow>
     \<exists>consumed. evs = consumed @ evs' \<and> doc' = doc @ added consumed"
proof (cases w)
  case False
  assume "find_host w t s doc evs = (r, doc', evs')"
  with False have "doc' = doc" "evs' = evs" by (auto simp: find_host_def)
  then show ?thesis by (intro exI[of _ "[]"]) simp
next
  case True
  assume a: "find_host w t s doc evs = (r, doc', evs')"
  obtain st where "await s doc (waitForElement s t doc) evs = (st, doc', evs')"
    using a True by (auto simp: find_host_def split: prod.splits promise.splits)
  then show ?thesis by (rule await_shape)
qed

lemma find_host_present:
  assumes "querySelector doc s = Inr (Some i)"
  shows "find_host w t s doc evs = (Some (Inr (Some i)), doc, evs)"
proof (cases w)
  case False
  with assms show ?thesis by (simp add: find_host_def)
next
  case True
  have "outcome (waitForElement s t doc) = Fulfilled i"
    using assms by (simp add: waitForElement_def)
  then have "await s doc (waitForElement s t doc) evs = (waitForElement s t doc, doc, evs)"
    by (simp add: await_settled)
  with True \<open>outcome (waitForElement s t doc) = Fulfilled i\<close> show ?thesis
    by (simp add: find_host_def)
qed

lemma find_host_found:
  assumes "find_host w t s doc evs = (Some (Inr (Some j)), D, evs')"
  shows "querySelector D s = Inr (Some j)"
proof (cases w)
  case False
  with assms show ?thesis by (auto simp: find_host_def)
next
  case True
  with assms obtain st where
    a: "await s doc (waitForElement s t doc) evs = (st, D, evs')" "outcome st = Fulfilled j"
    by (auto simp: find_host_def split: prod.splits promise.splits)
  have "querySelector doc s = Inr (Some j)" if "outcome (waitForElement s t doc) = Fulfilled j"
    using that by (auto simp: waitForElement_def split: option.splits sum.splits)
  from await_found[OF a(1) this a(2)] show ?thesis .
qed

subsection \<open>One iteration of the loop\<close>

lemma host_step_cases:
  assumes "host_step c w t h doc evs = (r, doc', evs')"
  obtains
    (pending) D where "find_host w t (selector_of h) doc evs = (None, D, evs')" "r = None" "doc' = D"
  | (missing) D where "r = Some (failure h ''host-not-found'')" "doc' = D"
      "\<exists>x. find_host w t (selector_of h) doc evs = (x, D, evs')"
  | (found) D i where "find_host w t (selector_of h) doc evs = (Some (Inr (Some i)), D, evs')"
      "r = Some (record_of h (snd (inject_into c (D ! i))))"
      "doc' = D[i := fst (inject_into c (D ! i))]"
  using assms unfolding host_step_def record_of_def
  by (auto split: prod.splits option.splits sum.splits)

lemma host_step_shape:
  assumes "host_step c w t h doc evs = (r, doc', evs')"
  shows "\<exists>consumed. evs = consumed @ evs' \<and>
           length doc' = length (doc @ added consumed) \<and>
           (\<forall>k<length doc'. doc' ! k = (doc @ added consumed) ! k \<or>
                 doc' ! k = fst (inject_into c ((doc @ added consumed) ! k)))"
  using assms
proof (cases rule: host_step_cases)
  case (pending D)
  from find_host_shape[OF pending(1)] pending(3) show ?thesis by auto
next
  case (missing D)
  then obtain x where "find_host w t (selector_of h) doc evs = (x, D, evs')" by blast
  from find_host_shape[OF this] missing(2) show ?thesis by auto
next
  case (found D i)
  from find_host_shape[OF found(1)] obtain consumed where
    c: "evs = consumed @ evs'" "D = doc @ added consumed" by blast
  have "doc' ! k = D ! k \<or> doc' ! k = fst (inject_into c (D ! k))" if "k < length doc'" for k
    using found(3) that by (cases "k = i") auto
  then have "\<forall>k<length doc'. doc' ! k = D ! k \<or> doc' ! k = fst (inject_into c (D ! k))"
    by blast
  moreover have "length doc' = length D" using found(3) by simp
  ultimately show ?thesis using c by blast
qed

lemma host_step_length:
  "host_step c w t h doc evs = (r, doc', evs') \<Longrightarrow> length doc \<le> length doc'"
  by (drule host_step_shape) auto

lemma host_step_nth:
  assumes "host_step c w t h doc evs = (r, doc', evs')" and "k < length doc"
  shows "doc' ! k = doc ! k \<or> doc' ! k = fst (inject_into c (doc ! k))"
proof -
  from host_step_shape[OF assms(1)] obtain consumed where
    c: "length doc' = length (doc @ added consumed)"
       "\<forall>k<length doc'. doc' ! k = (doc @ added consumed) ! k \<or>
                 doc' ! k = fst (inject_into c ((doc @ added consumed) ! k))"
    by blast
  from c(1) assms(2) have "k < length doc'" by simp
  with c(2) have "doc' ! k = (doc @ added consumed) ! k \<or>
                 doc' ! k = fst (inject_into c ((doc @ added consumed) ! k))" by blast
  with assms(2) show ?thesis by (simp add: nth_append)
qed

lemma host_step_all:
  assumes "host_step c w t h doc evs = (r, doc', evs')"
    and "\<And>e. I e \<Longrightarrow> I (fst (inject_into c e))"
    and "list_all I doc" and "list_all I (added evs)"
  shows "list_all I doc' \<and> list_all I (added evs')"
proof -
  from host_step_shape[OF assms(1)] obtain consumed where
    c: "evs = consumed @ evs'" "length doc' = length (doc @ added consumed)"
       "\<forall>k<length doc'. doc' ! k = (doc @ added consumed) ! k \<or>
                 doc' ! k = fst (inject_into c ((doc @ added consumed) ! k))"
    by blast
  have app: "added (xs @ ys) = added xs @ added ys" for xs ys
    by (induction xs rule: added.induct) auto
  from assms(4) c(1) have a: "list_all I (added consumed)" "list_all I (added evs')"
    by (simp_all add: app)
  with assms(3) have "list_all I (doc @ added consumed)" by simp
  then have "\<forall>k<length doc'. I ((doc @ added consumed) ! k)"
    using c(2) by (simp add: list_all_length)
  with c(3) assms(2) have "\<forall>k<length doc'. I (doc' ! k)" by metis
  then show ?thesis using a by (simp add: list_all_length)
qed

lemma host_step_record:
  "host_step c w t h doc evs = (Some r, doc', evs') \<Longrightarrow> hostId r = h \<and> well_formed r"
  by (auto simp: host_step_def inject_into_def failure_def success_def well_formed_def
      split: prod.splits option.splits sum.splits if_splits)

lemma host_step_hit:
  assumes "querySelector doc (selector_of h) = Inr (Some i)"
  shows "host_step c w t h doc evs =
     (Some (record_of h (snd (inject_into c (doc ! i)))),
      doc[i := fst (inject_into c (doc ! i))], evs)"
  by (simp add: host_step_def find_host_present[OF assms] record_of_def
      split: prod.splits sum.splits)

lemma host_step_query:
  assumes "host_step c w t h doc evs = (r, doc', evs')" and "querySelector doc s = Inr (Some i)"
  shows "querySelector doc' s = Inr (Some i)"
proof -
  from assms(2) have q: "\<not> refused s" "first_index (matches s) doc = Some i"
    by (simp_all add: querySelector_Inr)
  have "first_index (matches s) doc' = Some i"
  proof (rule first_index_stable)
    show "first_index (matches s) doc = Some i" by (rule q(2))
    show "length doc \<le> length doc'" using assms(1) by (rule host_step_length)
    fix k assume "k < length doc"
    from host_step_nth[OF assms(1) this]
    show "matches s (doc' ! k) = matches s (doc ! k)"
      by (auto simp: inject_into_matches)
  qed
  with q(1) show ?thesis by (simp add: querySelector_Inr)
qed

lemma host_step_other:
  assumes "host_step c w t h doc evs = (r, doc', evs')" and "k < length doc"
    and "\<not> matches (selector_of h) (doc ! k)"
  shows "doc' ! k = doc ! k"
  using assms(1)
proof (cases rule: host_step_cases)
  case (pending D)
  from find_host_shape[OF pending(1)] pending(3) assms(2) show ?thesis
    by (auto simp: nth_append)
next
  case (missing D)
  then obtain x where "find_host w t (selector_of h) doc evs = (x, D, evs')" by blast
  from find_host_shape[OF this] missing(2) assms(2) show ?thesis
    by (auto simp: nth_append)
next
  case (found D i)
  from find_host_shape[OF found(1)] assms(2) have D: "D ! k = doc ! k"
    by (auto simp: nth_append)
  from find_host_found[OF found(1)] have "matches (selector_of h) (D ! i)"
    by (simp add: querySelector_Some_iff)
  with D assms(3) have "i \<noteq> k" by auto
  with found(3) D show ?thesis by simp
qed

lemma host_step_never:
  assumes "t \<le> 0" and "\<forall>e\<in>set doc. \<not> matches (selector_of h) e"
    and "\<forall>e\<in>set (added evs). \<not> matches (selector_of h) e" and "h \<noteq> []"
  shows "host_step c True t h doc evs = (None, doc @ added evs, [])"
proof -
  from assms(2,4) have q: "querySelector doc (selector_of h) = Inr None"
    by (simp add: querySelector_None_iff selector_of_refused)
  with assms(1) have st: "outcome (waitForElement (selector_of h) t doc) = Pending"
    "connected (waitForElement (selector_of h) t doc)"
    "\<not> timer_armed (waitForElement (selector_of h) t doc)"
    by (simp_all add: waitForElement_def)
  from await_never[OF st q assms(3)] st(1) show ?thesis
    by (simp add: host_step_def find_host_def)
qed

subsection \<open>The loop\<close>

lemma for_hosts_all:
  assumes "\<And>e. I e \<Longrightarrow> I (fst (inject_into c e))"
  shows "list_all I doc \<Longrightarrow> list_all I (added evs) \<Longrightarrow>
         list_all I (dom (for_hosts c w t hs doc evs acc))"
proof (induction hs arbitrary: doc evs acc)
  case Nil
  then show ?case by simp
next
  case (Cons h hs)
  obtain r doc' evs' where step: "host_step c w t h doc evs = (r, doc', evs')"
    by (cases "host_step c w t h doc evs") auto
  from host_step_all[OF step assms Cons.prems]
  have a: "list_all I doc'" "list_all I (added evs')" by auto
  show ?case
  proof (cases r)
    case None
    with step a show ?thesis by simp
  next
    case (Some x)
    with step Cons.IH[OF a] show ?thesis by simp
  qed
qed

lemma for_hosts_at:
  assumes "\<And>e. J e \<Longrightarrow> J (fst (inject_into c e))"
  shows "i < length doc \<Longrightarrow> J (doc ! i) \<Longrightarrow>
         i < length (dom (for_hosts c w t hs doc evs acc)) \<and>
         J (dom (for_hosts c w t hs doc evs acc) ! i)"
proof (induction hs arbitrary: doc evs acc)
  case Nil
  then show ?case by simp
next
  case (Cons h hs)
  obtain r doc' evs' where step: "host_step c w t h doc evs = (r, doc', evs')"
    by (cases "host_step c w t h doc evs") auto
  from host_step_length[OF step] Cons.prems(1) have len: "i < length doc'" by simp
  from host_step_nth[OF step Cons.prems(1)] Cons.prems(2) assms have J: "J (doc' ! i)"
    by auto
  show ?case
  proof (cases r)
    case None
    with step len J show ?thesis by simp
  next
    case (Some x)
    with step Cons.IH[OF len J] show ?thesis by simp
  qed
qed

lemma for_hosts_establish:
  assumes est: "\<And>e. I e \<Longrightarrow> J (fst (inject_into c e))"
    and sub: "\<And>e. J e \<Longrightarrow> I e"
  shows "querySelector doc (selector_of h) = Inr (Some i) \<Longrightarrow> I (doc ! i) \<Longrightarrow> h \<in> set hs \<Longrightarrow>
         returned (for_hosts c w t hs doc evs acc) = Fulfilled rs \<Longrightarrow>
         J (dom (for_hosts c w t hs doc evs acc) ! i)"
proof (induction hs arbitrary: doc evs acc)
  case Nil
  then show ?case by simp
next
  case (Cons h' hs)
  have pres: "\<And>e. J e \<Longrightarrow> J (fst (inject_into c e))" using est sub by blast
  obtain r doc' evs' where step: "host_step c w t h' doc evs = (r, doc', evs')"
    by (cases "host_step c w t h' doc evs") auto
  from Cons.prems(4) step obtain x where r: "r = Some x"
    by (cases r) auto
  from Cons.prems(1) have i: "i < length doc"
    by (simp add: querySelector_Some_iff)
  from host_step_length[OF step] i have len: "i < length doc'" by simp
  have rest: "for_hosts c w t (h' # hs) doc evs acc = for_hosts c w t hs doc' evs' (acc @ [x])"
    using step r by simp
  show ?case
  proof (cases "h' = h")
    case True
    from host_step_hit[OF Cons.prems(1), of c w t evs] step True
    have "doc' = doc[i := fst (inject_into c (doc ! i))]" by simp
    with i est[OF Cons.prems(2)] have "J (doc' ! i)" by simp
    from for_hosts_at[of J c, OF pres len this] rest show ?thesis by simp
  next
    case False
    with Cons.prems(3) have mem: "h \<in> set hs" by simp
    from host_step_nth[OF step i] Cons.prems(2) est sub have I: "I (doc' ! i)" by auto
    from host_step_query[OF step Cons.prems(1)]
    have q: "querySelector doc' (selector_of h) = Inr (Some i)" .
    from Cons.prems(4) rest
    have "returned (for_hosts c w t hs doc' evs' (acc @ [x])) = Fulfilled rs" by simp
    from Cons.IH[OF q I mem this] rest show ?thesis by simp
  qed
qed

lemma for_hosts_query:
  "querySelector doc s = Inr (Some i) \<Longrightarrow>
     querySelector (dom (for_hosts c w t hs doc evs acc)) s = Inr (Some i)"
proof (induction hs arbitrary: doc evs acc)
  case Nil
  then show ?case by simp
next
  case (Cons h hs)
  obtain r doc' evs' where step: "host_step c w t h doc evs = (r, doc', evs')"
    by (cases "host_step c w t h doc evs") auto
  from host_step_query[OF step Cons.prems] have q: "querySelector doc' s = Inr (Some i)" .
  show ?case
  proof (cases r)
    case None
    with step q show ?thesis by simp
  next
    case (Some x)
    with step Cons.IH[OF q] show ?thesis by simp
  qed
qed

lemma for_hosts_ids:
  "returned (for_hosts c w t hs doc evs acc) = Fulfilled rs \<Longrightarrow>
     map hostId rs = map hostId acc @ hs \<and> (list_all well_formed acc \<longrightarrow> list_all well_formed rs)"
proof (induction hs arbitrary: doc evs acc)
  case Nil
  then show ?case by auto
next
  case (Cons h hs)
  obtain r doc' evs' where step: "host_step c w t h doc evs = (r, doc', evs')"
    by (cases "host_step c w t h doc evs") auto
  from Cons.prems step obtain x where r: "r = Some x"
    by (cases r) auto
  from host_step_record[of c w t h doc evs x doc' evs'] step r
  have x: "hostId x = h" "well_formed x" by auto
  from Cons.prems step r
  have "returned (for_hosts c w t hs doc' evs' (acc @ [x])) = Fulfilled rs" by simp
  from Cons.IH[OF this] x show ?case by simp
qed

lemma for_hosts_not_rejected: "returned (for_hosts c w t hs doc evs acc) \<noteq> Rejected err"
proof (induction hs arbitrary: doc evs acc)
  case Nil
  then show ?case by simp
next
  case (Cons h hs)
  obtain r doc' evs' where step: "host_step c w t h doc evs = (r, doc', evs')"
    by (cases "host_step c w t h doc evs") auto
  show ?case
  proof (cases r)
    case None
    with step show ?thesis by simp
  next
    case (Some x)
    with step Cons.IH[of doc' evs' "acc @ [x]"] show ?thesis by simp
  qed
qed


text \<open>The records of one identifier, once its host satisfies a condition that the loop
  body keeps and under which it always pushes the same record.\<close>

lemma for_hosts_records_same:
  assumes pres: "\<And>e. J e \<Longrightarrow> J (fst (inject_into c e))"
    and tag: "\<And>e. J e \<Longrightarrow> snd (inject_into c e) = tag"
  shows "querySelector doc (selector_of h) = Inr (Some i) \<Longrightarrow> J (doc ! i) \<Longrightarrow>
         returned (for_hosts c w t hs doc evs acc) = Fulfilled rs \<Longrightarrow>
         filter (\<lambda>r. hostId r = h) rs =
           filter (\<lambda>r. hostId r = h) acc @ replicate (count_list hs h) (record_of h tag)"
proof (induction hs arbitrary: doc evs acc)
  case Nil
  then show ?case by auto
next
  case (Cons h' hs)
  obtain r doc' evs' where step: "host_step c w t h' doc evs = (r, doc', evs')"
    by (cases "host_step c w t h' doc evs") auto
  from Cons.prems(3) step obtain x where r: "r = Some x"
    by (cases r) auto
  from host_step_record[of c w t h' doc evs x doc' evs'] step r have x: "hostId x = h'" by auto
  from Cons.prems(1) have i: "i < length doc"
    by (simp add: querySelector_Some_iff)
  from host_step_nth[OF step i] Cons.prems(2) pres have J: "J (doc' ! i)" by auto
  from host_step_query[OF step Cons.prems(1)]
  have q: "querySelector doc' (selector_of h) = Inr (Some i)" .
  from Cons.prems(3) step r
  have "returned (for_hosts c w t hs doc' evs' (acc @ [x])) = Fulfilled rs" by simp
  from Cons.IH[OF q J this]
  have IH: "filter (\<lambda>r. hostId r = h) rs =
      filter (\<lambda>r. hostId r = h) (acc @ [x]) @ replicate (count_list hs h) (record_of h tag)" .
  show ?case
  proof (cases "h' = h")
    case True
    from host_step_hit[OF Cons.prems(1), of c w t evs] step r True
    have "x = record_of h (snd (inject_into c (doc ! i)))" by simp
    with tag[OF Cons.prems(2)] have "x = record_of h tag" by simp
    with IH x True show ?thesis by (simp add: replicate_append_same)
  next
    case False
    with IH x show ?thesis by simp
  qed
qed

text \<open>The records of one identifier whose host changes at its first treatment.\<close>

lemma for_hosts_records_first:
  assumes est: "\<And>e. I e \<Longrightarrow> J (fst (inject_into c e)) \<and> snd (inject_into c e) = tag0"
    and pres: "\<And>e. J e \<Longrightarrow> J (fst (inject_into c e))"
    and tag: "\<And>e. J e \<Longrightarrow> snd (inject_into c e) = tag"
  shows "querySelector doc (selector_of h) = Inr (Some i) \<Longrightarrow> I (doc ! i) \<Longrightarrow> h \<in> set hs \<Longrightarrow>
         returned (for_hosts c w t hs doc evs acc) = Fulfilled rs \<Longrightarrow>
         filter (\<lambda>r. hostId r = h) rs =
           filter (\<lambda>r. hostId r = h) acc @
           record_of h tag0 # replicate (count_list hs h - 1) (record_of h tag)"
proof (induction hs arbitrary: doc evs acc)
  case Nil
  then show ?case by auto
next
  case (Cons h' hs)
  obtain r doc' evs' where step: "host_step c w t h' doc evs = (r, doc', evs')"
    by (cases "host_step c w t h' doc evs") auto
  from Cons.prems(4) step obtain x where r: "r = Some x"
    by (cases r) auto
  from host_step_record[of c w t h' doc evs x doc' evs'] step r have x: "hostId x = h'" by auto
  from Cons.prems(1) have i: "i < length doc" "matches (selector_of h) (doc ! i)"
    by (simp_all add: querySelector_Some_iff)
  from host_step_query[OF step Cons.prems(1)]
  have q: "querySelector doc' (selector_of h) = Inr (Some i)" .
  from Cons.prems(4) step r
  have ret: "returned (for_hosts c w t hs doc' evs' (acc @ [x])) = Fulfilled rs" by simp
  show ?case
  proof (cases "h' = h")
    case True
    from host_step_hit[OF Cons.prems(1), of c w t evs] step r True
    have hit: "x = record_of h (snd (inject_into c (doc ! i)))"
      "doc' = doc[i := fst (inject_into c (doc ! i))]" by simp_all
    with est[OF Cons.prems(2)] i have "x = record_of h tag0" "J (doc' ! i)" by simp_all
    from for_hosts_records_same[of J c tag, OF pres tag q this(2) ret] this(1) x True
    show ?thesis by simp
  next
    case False
    with Cons.prems(3) have mem: "h \<in> set hs" by simp
    from False i(2) have "\<not> matches (selector_of h') (doc ! i)"
      using selector_of_inj by blast
    from host_step_other[OF step i(1) this] Cons.prems(2) have I: "I (doc' ! i)" by simp
    from Cons.IH[OF q I mem ret] x False show ?thesis by simp
  qed
qed

lemma for_hosts_suspended:
  assumes "t \<le> 0" and "h \<noteq> []"
  shows "h \<in> set hs \<Longrightarrow> list_all (\<lambda>e. \<not> matches (selector_of h) e) doc \<Longrightarrow>
         list_all (\<lambda>e. \<not> matches (selector_of h) e) (added evs) \<Longrightarrow>
         returned (for_hosts c True t hs doc evs acc) = Pending \<and>
         (\<exists>k\<le>length (takeWhile (\<lambda>x. x \<noteq> h) hs).
            map hostId (pushed (for_hosts c True t hs doc evs acc)) = map hostId acc @ take k hs)"
proof (induction hs arbitrary: doc evs acc)
  case Nil
  then show ?case by simp
next
  case (Cons h' hs)
  obtain r doc' evs' where step: "host_step c True t h' doc evs = (r, doc', evs')"
    by (cases "host_step c True t h' doc evs") auto
  show ?case
  proof (cases r)
    case None
    with step show ?thesis by (intro conjI exI[of _ 0]) simp_all
  next
    case (Some x)
    have "h' \<noteq> h"
    proof
      assume "h' = h"
      with host_step_never[of t doc h evs c] assms Cons.prems(2,3) step Some show False
        by (simp add: list_all_iff)
    qed
    with Cons.prems(1) have mem: "h \<in> set hs" by simp
    from host_step_all[of c True t h' doc evs r doc' evs' "\<lambda>e. \<not> matches (selector_of h) e",
        OF step _ Cons.prems(2,3)]
    have a: "list_all (\<lambda>e. \<not> matches (selector_of h) e) doc'"
      "list_all (\<lambda>e. \<not> matches (selector_of h) e) (added evs')"
      by (simp_all add: inject_into_matches)
    from host_step_record[of c True t h' doc evs x doc' evs'] step Some have x: "hostId x = h'"
      by simp
    from Cons.IH[OF mem a, of "acc @ [x]"] obtain k where
      k: "k \<le> length (takeWhile (\<lambda>x. x \<noteq> h) hs)"
         "map hostId (pushed (for_hosts c True t hs doc' evs' (acc @ [x]))) =
            map hostId (acc @ [x]) @ take k hs"
      and pend: "returned (for_hosts c True t hs doc' evs' (acc @ [x])) = Pending"
      by blast
    show ?thesis
      using step Some pend k x \<open>h' \<noteq> h\<close> by (intro conjI exI[of _ "Suc k"]) simp_all
  qed
qed

text \<open>Waits see the tags and the ids of the document only.\<close>

lemma first_index_alike:
  "list_all2 same_host d1 d2 \<Longrightarrow> first_index (matches s) d1 = first_index (matches s) d2"
  by (induction rule: list_all2_induct) (auto simp: matches_def same_host_def)

lemma querySelector_alike: "list_all2 same_host d1 d2 \<Longrightarrow> querySelector d1 s = querySelector d2 s"
  by (simp add: querySelector_def first_index_alike)

lemma page_step_alike:
  "list_all2 same_host d1 d2 \<Longrightarrow> list_all2 same_host (page_step ev d1) (page_step ev d2)"
  by (cases ev) (auto simp: same_host_def intro: list_all2_appendI)

lemma deliver_alike: "list_all2 same_host d1 d2 \<Longrightarrow> deliver s d1 ev st = deliver s d2 ev st"
  by (cases ev) (simp_all add: observer_callback_def querySelector_alike)

lemma await_alike:
  "list_all2 same_host d1 d2 \<Longrightarrow> await s d1 st evs = (st', d1', evs') \<Longrightarrow>
     \<exists>d2'. await s d2 st evs = (st', d2', evs') \<and> list_all2 same_host d1' d2'"
proof (induction evs arbitrary: d1 d2 st)
  case Nil
  then show ?case by auto
next
  case (Cons ev evs)
  show ?case
  proof (cases "outcome st = Pending")
    case False
    with Cons.prems show ?thesis by auto
  next
    case True
    from Cons.prems(1) have step: "list_all2 same_host (page_step ev d1) (page_step ev d2)"
      by (rule page_step_alike)
    from deliver_alike[OF step]
    have same: "deliver s (page_step ev d1) ev st = deliver s (page_step ev d2) ev st" .
    from Cons.prems(2) True
    have "await s (page_step ev d1) (deliver s (page_step ev d1) ev st) evs = (st', d1', evs')"
      by simp
    from Cons.IH[OF step this] same True show ?thesis by simp
  qed
qed

lemma host_step_alike:
  assumes "host_step c w t h doc evs = (r, doc', evs')"
    and "find_host w t (selector_of h) doc evs = (x, D, evs'')"
    and "list_all2 same_host dw D"
  shows "list_all2 same_host dw doc'"
proof -
  have upd: "list_all2 same_host dw (D[i := fst (inject_into c (D ! i))])" for i
  proof (cases "i < length D")
    case True
    with assms(3) have "same_host (dw ! i) (D ! i)"
      by (simp add: list_all2_conv_all_nth)
    then have new: "same_host (dw ! i) (fst (inject_into c (D ! i)))"
      by (simp add: same_host_def inject_into_ids)
    have "same_host (dw ! k) (D[i := fst (inject_into c (D ! i))] ! k)" if "k < length D" for k
      using that new assms(3) by (cases "k = i") (simp_all add: list_all2_conv_all_nth)
    with assms(3) show ?thesis
      by (simp add: list_all2_conv_all_nth)
  next
    case False
    then have "D[i := fst (inject_into c (D ! i))] = D"
      by (intro list_update_beyond) simp
    with assms(3) show ?thesis by simp
  qed
  show ?thesis
    using assms(1)
  proof (cases rule: host_step_cases)
    case (pending D')
    with assms(2,3) show ?thesis by simp
  next
    case (missing D')
    with assms(2,3) show ?thesis by auto
  next
    case (found D' i)
    with assms(2) have "D' = D" by simp
    with found(3) upd show ?thesis by simp
  qed
qed

lemma for_hosts_settles:
  "list_all2 same_host dw doc \<Longrightarrow> waits_settle t hs dw evs \<Longrightarrow>
     returned (for_hosts c True t hs doc evs acc) \<noteq> Pending"
proof (induction hs arbitrary: dw doc evs acc)
  case Nil
  then show ?case by simp
next
  case (Cons h hs)
  obtain st dw' evs' where
    w: "await (selector_of h) dw (waitForElement (selector_of h) t dw) evs = (st, dw', evs')"
    by (cases "await (selector_of h) dw (waitForElement (selector_of h) t dw) evs") auto
  with Cons.prems(2) have settled: "outcome st \<noteq> Pending" and rest: "waits_settle t hs dw' evs'"
    by simp_all
  from querySelector_alike[OF Cons.prems(1)]
  have "waitForElement (selector_of h) t dw = waitForElement (selector_of h) t doc"
    by (simp add: waitForElement_def)
  with await_alike[OF Cons.prems(1) w] obtain D where
    D: "await (selector_of h) doc (waitForElement (selector_of h) t doc) evs = (st, D, evs')"
       "list_all2 same_host dw' D"
    by auto
  from D(1) settled obtain x where
    f: "find_host True t (selector_of h) doc evs = (Some x, D, evs')"
    by (cases "outcome st") (auto simp: find_host_def)
  obtain r doc' evs'' where step: "host_step c True t h doc evs = (r, doc', evs'')"
    by (cases "host_step c True t h doc evs") auto
  from step f obtain y where r: "r = Some y" and e: "evs'' = evs'"
    by (auto simp: host_step_def split: prod.splits option.splits sum.splits)
  from host_step_alike[OF step f D(2)] have "list_all2 same_host dw' doc'" .
  from Cons.IH[OF this rest] step r e show ?case by simp
qed

lemma for_hosts_nowait: "returned (for_hosts c False t hs doc evs acc) \<noteq> Pending"
proof (induction hs arbitrary: doc evs acc)
  case Nil
  then show ?case by simp
next
  case (Cons h hs)
  obtain r doc' evs' where step: "host_step c False t h doc evs = (r, doc', evs')"
    by (cases "host_step c False t h doc evs") auto
  then obtain y where "r = Some y"
    by (auto simp: host_step_def find_host_def split: prod.splits option.splits sum.splits)
  with step Cons.IH show ?case by simp
qed

lemma for_hosts_fulfilled:
  assumes "returned (for_hosts c w t hs doc evs acc) \<noteq> Pending"
  shows "\<exists>rs. returned (for_hosts c w t hs doc evs acc) = Fulfilled rs"
  using assms for_hosts_not_rejected[of c w t hs doc evs acc]
  by (cases "returned (for_hosts c w t hs doc evs acc)") auto





section \<open>The claims\<close>

text \<open>The definitions that evaluate a call on a concrete document.\<close>

lemmas eval_defs =
  injectCssIntoPlasmoHost_def HOST_IDS_def STYLE_ID_def host_step_def find_host_def
  selector_of_def querySelector_def matches_def getElementById_def createElement_def
  shadowRoot_def attachShadow_def inject_into_def upsert_style_def failure_def success_def
  waitForElement_def observer_callback_def timer_callback_def resolve_def reject_def
  disconnect_def refused_def tag_name_def lower_def digit_def plasmo_host_def sidebar_def
  underline_def style_node_def

subsection \<open>Closed shadow roots\<close>

text \<open>
  C1. On a host with a closed shadow root the property \<^verbatim>\<open>shadowRoot\<close> is null and
  \<^verbatim>\<open>attachShadow\<close> is a function, so the loop body takes the branch that calls
  \<^verbatim>\<open>attachShadow\<close>; the call raises, the \<^verbatim>\<open>catch\<close> pushes the reason
  attach-failed, and the branch that pushes closed-or-no-attach is not reached. The
  host is left as it was, without a style node.
\<close>

theorem closed_root_yields_attach_failed:
  "shadowRoot (closed_doc ! 0) = None \<and>
   attachShadowIsFunction (closed_doc ! 0) \<and>
   attachShadow (closed_doc ! 0) = Inl NotSupportedError \<and>
   returned (injectCssIntoPlasmoHost ''c'' False 0 closed_doc []) =
     Fulfilled [failure sidebar ''attach-failed'', failure underline ''host-not-found'',
                failure sidebar ''attach-failed''] \<and>
   dom (injectCssIntoPlasmoHost ''c'' False 0 closed_doc []) = closed_doc"
  by (simp add: eval_defs closed_doc_def)

subsection \<open>The observer of a wait\<close>

text \<open>
  C2, as it stands, fails when the match comes first and the timer fires afterwards:
  the timer is never cleared, so its callback calls \<^verbatim>\<open>observer.disconnect()\<close> a
  second time, after the promise has settled.
\<close>

theorem observer_disconnect_counterexample:
  "querySelector [] (selector_of sidebar) = Inr None \<and>
   outcome (run_wait (selector_of sidebar) [] (waitForElement (selector_of sidebar) 5000 [])
      [Added (plasmo_host sidebar NoShadow)]) = Fulfilled 0 \<and>
   disconnects (run_wait (selector_of sidebar) [] (waitForElement (selector_of sidebar) 5000 [])
      [Added (plasmo_host sidebar NoShadow)]) = 1 \<and>
   disconnects (run_wait (selector_of sidebar) [] (waitForElement (selector_of sidebar) 5000 [])
      [Added (plasmo_host sidebar NoShadow), TimerFired]) = 2"
  by (simp add: eval_defs)

text \<open>
  C2, amended. A call of \<^verbatim>\<open>waitForElement\<close> that finds no match at the call installs
  exactly one observer. The observer is connected exactly as long as the promise is
  pending, so it is disconnected by whichever of the two events, a match found by the
  observer or the firing of the timer, comes first, and no observer outlives the wait.
  \<^verbatim>\<open>observer.disconnect()\<close> has been called at least once exactly when the promise has
  settled, and never more than twice; it has been called twice exactly when the promise
  was resolved by a match, the timeout is positive and the timer, which is never
  cleared, has fired since. When the timeout is not positive it is called at most once.
\<close>

theorem observer_lifetime:
  assumes "querySelector doc selector = Inr None"
  shows "observers (run_wait selector doc (waitForElement selector timeout doc) evs) = 1 \<and>
    (connected (run_wait selector doc (waitForElement selector timeout doc) evs) \<longleftrightarrow>
       outcome (run_wait selector doc (waitForElement selector timeout doc) evs) = Pending) \<and>
    (disconnects (run_wait selector doc (waitForElement selector timeout doc) evs) = 0 \<longleftrightarrow>
       outcome (run_wait selector doc (waitForElement selector timeout doc) evs) = Pending) \<and>
    disconnects (run_wait selector doc (waitForElement selector timeout doc) evs) \<le> 2 \<and>
    (disconnects (run_wait selector doc (waitForElement selector timeout doc) evs) = 2 \<longleftrightarrow>
       (\<exists>el. outcome (run_wait selector doc (waitForElement selector timeout doc) evs) =
          Fulfilled el) \<and> 0 < timeout \<and>
       \<not> timer_armed (run_wait selector doc (waitForElement selector timeout doc) evs)) \<and>
    (timeout \<le> 0 \<longrightarrow>
       disconnects (run_wait selector doc (waitForElement selector timeout doc) evs) \<le> 1)"
proof -
  let ?st = "run_wait selector doc (waitForElement selector timeout doc) evs"
  have "wait_inv timeout ?st"
    using assms by (intro run_wait_inv waitForElement_inv)
  then show ?thesis
    by (cases "outcome ?st") (auto simp: wait_inv_def split: if_splits)
qed

theorem observer_lifetime_witness:
  "querySelector [] (selector_of sidebar) = Inr None \<and>
   run_wait (selector_of sidebar) [] (waitForElement (selector_of sidebar) 5000 [])
      [Added (plasmo_host underline NoShadow), TimerFired, Added (plasmo_host sidebar NoShadow)] =
     \<lparr>outcome = Rejected (Error ''Timed out waiting for plasmo-csui#qaiSidebarShadowHostEl''),
      observers = 1, connected = False, disconnects = 1, timer_armed = False\<rparr> \<and>
   disconnects (run_wait (selector_of sidebar) [] (waitForElement (selector_of sidebar) 5000 [])
      [Added (plasmo_host underline NoShadow), TimerFired, Added (plasmo_host sidebar NoShadow)]) \<le> 2"
proof -
  have h: "querySelector [] (selector_of sidebar) = Inr None" by (simp add: eval_defs)
  have run: "run_wait (selector_of sidebar) [] (waitForElement (selector_of sidebar) 5000 [])
      [Added (plasmo_host underline NoShadow), TimerFired, Added (plasmo_host sidebar NoShadow)] =
     \<lparr>outcome = Rejected (Error ''Timed out waiting for plasmo-csui#qaiSidebarShadowHostEl''),
      observers = 1, connected = False, disconnects = 1, timer_armed = False\<rparr>"
    by (simp add: eval_defs)
  from observer_lifetime[OF h, of 5000
      "[Added (plasmo_host underline NoShadow), TimerFired, Added (plasmo_host sidebar NoShadow)]"]
    h run
  show ?thesis by simp
qed

subsection \<open>Idempotence\<close>

text \<open>
  C3, as it stands, fails on a shadow root that holds two nodes with the id
  \<open>STYLE_ID\<close> before the first call: the upsert updates the first and never removes
  the other, so two remain after the second call.
\<close>

theorem idempotence_counterexample:
  "sidebar \<in> set HOST_IDS \<and>
   querySelector duplicate_doc (selector_of sidebar) = Inr (Some 0) \<and>
   shadowRoot (duplicate_doc ! 0) = Some [style_node ''a'', style_node ''b''] \<and>
   shadowRoot (dom (injectCssIntoPlasmoHost ''c'' False 0
       (dom (injectCssIntoPlasmoHost ''c'' False 0 duplicate_doc [])) []) ! 0) =
     Some [style_node ''c'', style_node ''b''] \<and>
   length (styled [style_node ''c'', style_node ''b'']) = 2"
  by (simp add: eval_defs duplicate_doc_def styled_def)

text \<open>
  C3, amended. Let the host of a configured identifier be present with an open shadow
  root that holds at most one node with the id \<open>STYLE_ID\<close>. After two calls in
  succession with the same CSS, both of which return, the host is still the element the
  selector finds, its shadow root is open and holds exactly one node with that id,
  whose text is the CSS, and every record of the identifier in the second list is a
  success with the mode existing-open-shadowRoot.
\<close>

theorem idempotence_of_injection:
  assumes "h \<in> set HOST_IDS"
    and "querySelector doc (selector_of h) = Inr (Some i)"
    and "shadow (doc ! i) = OpenShadow sr"
    and "length (styled sr) \<le> 1"
    and "returned (injectCssIntoPlasmoHost cssText wait waitTimeout doc evs) = Fulfilled rs"
    and "returned (injectCssIntoPlasmoHost cssText wait waitTimeout
           (dom (injectCssIntoPlasmoHost cssText wait waitTimeout doc evs)) evs') = Fulfilled rs'"
  shows "querySelector (dom (injectCssIntoPlasmoHost cssText wait waitTimeout
           (dom (injectCssIntoPlasmoHost cssText wait waitTimeout doc evs)) evs')) (selector_of h) = Inr (Some i) \<and>
         map_option (\<lambda>sr'. map textContent (styled sr'))
           (shadowRoot (dom (injectCssIntoPlasmoHost cssText wait waitTimeout
              (dom (injectCssIntoPlasmoHost cssText wait waitTimeout doc evs)) evs') ! i)) =
           Some [cssText] \<and>
         filter (\<lambda>r. hostId r = h) rs' =
           replicate (count_list HOST_IDS h) (success h ''existing-open-shadowRoot'')"
proof -
  let ?d1 = "dom (for_hosts cssText wait waitTimeout HOST_IDS doc evs [])"
  let ?d2 = "dom (for_hosts cssText wait waitTimeout HOST_IDS ?d1 evs' [])"
  define I where "I e \<longleftrightarrow> (\<exists>sr. shadow e = OpenShadow sr \<and> length (styled sr) \<le> 1)"
    for e :: element
  define J where "J e \<longleftrightarrow> (\<exists>sr. shadow e = OpenShadow sr \<and> map textContent (styled sr) = [cssText])"
    for e :: element
  have ret1: "returned (for_hosts cssText wait waitTimeout HOST_IDS doc evs []) = Fulfilled rs"
    using assms(5) by (simp add: injectCssIntoPlasmoHost_def)
  have ret2: "returned (for_hosts cssText wait waitTimeout HOST_IDS ?d1 evs' []) = Fulfilled rs'"
    using assms(6) by (simp add: injectCssIntoPlasmoHost_def)
  have est: "J (fst (inject_into cssText e))" if "I e" for e
    using inject_into_single[of e cssText] that by (simp add: I_def J_def)
  have sub: "I e" if "J e" for e
  proof -
    from that obtain x where x: "shadow e = OpenShadow x" "map textContent (styled x) = [cssText]"
      by (auto simp: J_def)
    from x(2) have "length (map textContent (styled x)) = 1" by simp
    then have "length (styled x) \<le> 1" by simp
    with x(1) show ?thesis by (auto simp: I_def)
  qed
  have pres: "J (fst (inject_into cssText e))" if "J e" for e
    using est sub that by blast
  have I0: "I (doc ! i)" using assms(3,4) by (simp add: I_def)
  from for_hosts_establish[of I J cssText, OF est sub assms(2) I0 assms(1) ret1]
  have J1: "J (?d1 ! i)" .
  from for_hosts_query[OF assms(2)]
  have q1: "querySelector ?d1 (selector_of h) = Inr (Some i)" .
  then have len1: "i < length ?d1"
    by (simp add: querySelector_Some_iff)
  from for_hosts_at[of J cssText, OF pres len1 J1]
  have J2: "J (?d2 ! i)" by simp
  from for_hosts_query[OF q1]
  have q2: "querySelector ?d2 (selector_of h) = Inr (Some i)" .
  from J1 have open1: "\<exists>x. shadow (?d1 ! i) = OpenShadow x" by (auto simp: J_def)
  from for_hosts_records_same[of "\<lambda>e::element. \<exists>x. shadow e = OpenShadow x" cssText
      "Inr ''existing-open-shadowRoot''", OF inject_into_keeps_open inject_into_open_tag
      q1 open1 ret2]
  have recs: "filter (\<lambda>r. hostId r = h) rs' =
           replicate (count_list HOST_IDS h) (success h ''existing-open-shadowRoot'')"
    by (simp add: record_of_def)
  from J2 have "map_option (\<lambda>sr'. map textContent (styled sr')) (shadowRoot (?d2 ! i)) = Some [cssText]"
    by (auto simp: J_def shadowRoot_def)
  with q2 recs show ?thesis by (simp add: injectCssIntoPlasmoHost_def)
qed

theorem idempotence_of_injection_witness:
  "sidebar \<in> set HOST_IDS \<and>
   querySelector [plasmo_host sidebar (OpenShadow [])] (selector_of sidebar) = Inr (Some 0) \<and>
   length (styled []) \<le> 1 \<and>
   returned (injectCssIntoPlasmoHost ''c'' False 0 [plasmo_host sidebar (OpenShadow [])] []) =
     Fulfilled [success sidebar ''existing-open-shadowRoot'', failure underline ''host-not-found'',
                success sidebar ''existing-open-shadowRoot''] \<and>
   returned (injectCssIntoPlasmoHost ''c'' False 0
      (dom (injectCssIntoPlasmoHost ''c'' False 0 [plasmo_host sidebar (OpenShadow [])] [])) []) =
     Fulfilled [success sidebar ''existing-open-shadowRoot'', failure underline ''host-not-found'',
                success sidebar ''existing-open-shadowRoot''] \<and>
   map_option (\<lambda>sr'. map textContent (styled sr'))
     (shadowRoot (dom (injectCssIntoPlasmoHost ''c'' False 0
        (dom (injectCssIntoPlasmoHost ''c'' False 0 [plasmo_host sidebar (OpenShadow [])] [])) []) ! 0)) =
     Some [''c'']"
proof -
  let ?doc = "[plasmo_host sidebar (OpenShadow [])]"
  have h1: "sidebar \<in> set HOST_IDS" by (simp add: eval_defs styled_def)
  have h2: "querySelector ?doc (selector_of sidebar) = Inr (Some 0)" by (simp add: eval_defs styled_def)
  have h3: "shadow (?doc ! 0) = OpenShadow []" by (simp add: eval_defs styled_def)
  have h4: "length (styled []) \<le> 1" by (simp add: eval_defs styled_def)
  have h5: "returned (injectCssIntoPlasmoHost ''c'' False 0 ?doc []) =
     Fulfilled [success sidebar ''existing-open-shadowRoot'', failure underline ''host-not-found'',
                success sidebar ''existing-open-shadowRoot'']"
    by (simp add: eval_defs styled_def)
  have h6: "returned (injectCssIntoPlasmoHost ''c'' False 0
      (dom (injectCssIntoPlasmoHost ''c'' False 0 ?doc [])) []) =
     Fulfilled [success sidebar ''existing-open-shadowRoot'', failure underline ''host-not-found'',
                success sidebar ''existing-open-shadowRoot'']"
    by (simp add: eval_defs styled_def)
  from idempotence_of_injection[OF h1 h2 h3 h4 h5 h6] h1 h2 h4 h5 h6
  show ?thesis by simp
qed

subsection \<open>At most one style node\<close>

text \<open>
  C4. If every accessible shadow root of the document before the call holds at most one
  node with the id \<open>STYLE_ID\<close>, then so does, after the call, every accessible
  shadow root of the elements that document had, those included that the call has
  attached; this holds at any point of the call, also when it is still suspended. If
  the same is true of the elements the page inserts while the call waits, it holds of
  the whole document after the call. The upsert leaves the number of such nodes as it
  is when there is one, and makes it one when there is none: it updates the node found,
  or appends exactly one node.
\<close>

theorem style_node_unique_preserved:
  assumes "list_all style_unique doc"
  shows "list_all style_unique
           (take (length doc) (dom (injectCssIntoPlasmoHost cssText wait waitTimeout doc evs))) \<and>
         (list_all style_unique (added evs) \<longrightarrow>
            list_all style_unique (dom (injectCssIntoPlasmoHost cssText wait waitTimeout doc evs))) \<and>
         length (styled (upsert_style cssText sr)) = max 1 (length (styled sr)) \<and>
         length (upsert_style cssText sr) =
           (if getElementById sr STYLE_ID = None then length sr + 1 else length sr)"
proof -
  let ?dom = "dom (for_hosts cssText wait waitTimeout HOST_IDS doc evs [])"
  have "i < length ?dom \<and> style_unique (?dom ! i)" if "i < length doc" for i
    using for_hosts_at[of style_unique cssText, OF inject_into_style_unique that] assms that
    by (simp add: list_all_length)
  then have one: "list_all style_unique (take (length doc) ?dom)"
    by (simp add: list_all_length)
  have two: "list_all style_unique ?dom" if "list_all style_unique (added evs)"
    using assms that by (intro for_hosts_all) (auto intro: inject_into_style_unique)
  from one two show ?thesis
    by (simp add: injectCssIntoPlasmoHost_def styled_upsert_count upsert_length)
qed

theorem style_node_unique_preserved_witness:
  "list_all style_unique [plasmo_host sidebar (OpenShadow [style_node ''old''])] \<and>
   list_all style_unique (added [Added (plasmo_host underline NoShadow)]) \<and>
   dom (injectCssIntoPlasmoHost ''c'' True 5000
          [plasmo_host sidebar (OpenShadow [style_node ''old''])]
          [Added (plasmo_host underline NoShadow)]) =
     [plasmo_host sidebar (OpenShadow [style_node ''c'']),
      plasmo_host underline (OpenShadow [style_node ''c''])] \<and>
   list_all style_unique
     (dom (injectCssIntoPlasmoHost ''c'' True 5000
          [plasmo_host sidebar (OpenShadow [style_node ''old''])]
          [Added (plasmo_host underline NoShadow)]))"
proof -
  have h1: "list_all style_unique [plasmo_host sidebar (OpenShadow [style_node ''old''])]"
    by (simp add: eval_defs style_unique_def styled_def)
  have h2: "list_all style_unique (added [Added (plasmo_host underline NoShadow)])"
    by (simp add: eval_defs style_unique_def styled_def)
  have run: "dom (injectCssIntoPlasmoHost ''c'' True 5000
          [plasmo_host sidebar (OpenShadow [style_node ''old''])]
          [Added (plasmo_host underline NoShadow)]) =
     [plasmo_host sidebar (OpenShadow [style_node ''c'']),
      plasmo_host underline (OpenShadow [style_node ''c''])]"
    by (simp add: eval_defs)
  from style_node_unique_preserved[OF h1, of "''c''" True 5000
      "[Added (plasmo_host underline NoShadow)]"] h1 h2 run
  show ?thesis by simp
qed

subsection \<open>A host without a shadow root\<close>

text \<open>
  C5, as it stands, fails for the identifier that \<open>HOST_IDS\<close> lists twice: its host
  is treated twice in the first call, and the second record of that call for the same
  identifier has the mode existing-open-shadowRoot.
\<close>

theorem fresh_host_counterexample:
  "sidebar \<in> set HOST_IDS \<and>
   querySelector fresh_doc (selector_of sidebar) = Inr (Some 0) \<and>
   shadow (fresh_doc ! 0) = NoShadow \<and>
   attachShadow (fresh_doc ! 0) = Inr (plasmo_host sidebar (OpenShadow []), []) \<and>
   returned (injectCssIntoPlasmoHost ''a'' False 0 fresh_doc []) =
     Fulfilled [success sidebar ''attached-new-open-shadowRoot'',
                failure underline ''host-not-found'',
                success sidebar ''existing-open-shadowRoot''] \<and>
   hostId (success sidebar ''existing-open-shadowRoot'') = sidebar \<and>
   used (success sidebar ''existing-open-shadowRoot'') \<noteq> Some ''attached-new-open-shadowRoot''"
  by (simp add: eval_defs fresh_doc_def)

text \<open>
  C5, amended. Let the host of a configured identifier have no shadow root, and
  \<^verbatim>\<open>attachShadow\<close> be a function that does not raise on it. In a first call that
  returns, the first record of the identifier is a success with the mode
  attached-new-open-shadowRoot, and the record of every later entry of the same
  identifier in \<open>HOST_IDS\<close> is a success with the mode existing-open-shadowRoot;
  the host then has an open shadow root holding exactly one node, the style node with
  the CSS. In a second call with another CSS that returns, every record of the
  identifier has the mode existing-open-shadowRoot, and the shadow root still holds
  exactly that one node, now with the new CSS.
\<close>

theorem fresh_host_then_update:
  assumes "h \<in> set HOST_IDS"
    and "querySelector doc (selector_of h) = Inr (Some i)"
    and "shadow (doc ! i) = NoShadow"
    and "attachShadowIsFunction (doc ! i)"
    and "shadowPermitted (doc ! i)"
    and "returned (injectCssIntoPlasmoHost css1 wait waitTimeout doc evs) = Fulfilled rs"
    and "returned (injectCssIntoPlasmoHost css2 wait waitTimeout
           (dom (injectCssIntoPlasmoHost css1 wait waitTimeout doc evs)) evs') = Fulfilled rs'"
  shows "filter (\<lambda>r. hostId r = h) rs =
           success h ''attached-new-open-shadowRoot'' #
           replicate (count_list HOST_IDS h - 1) (success h ''existing-open-shadowRoot'') \<and>
         shadow (dom (injectCssIntoPlasmoHost css1 wait waitTimeout doc evs) ! i) =
           OpenShadow [style_node css1] \<and>
         filter (\<lambda>r. hostId r = h) rs' =
           replicate (count_list HOST_IDS h) (success h ''existing-open-shadowRoot'') \<and>
         shadow (dom (injectCssIntoPlasmoHost css2 wait waitTimeout
           (dom (injectCssIntoPlasmoHost css1 wait waitTimeout doc evs)) evs') ! i) =
           OpenShadow [style_node css2]"
proof -
  let ?d1 = "dom (for_hosts css1 wait waitTimeout HOST_IDS doc evs [])"
  let ?d2 = "dom (for_hosts css2 wait waitTimeout HOST_IDS ?d1 evs' [])"
  define I where "I e \<longleftrightarrow> shadow e = NoShadow \<and> attachShadowIsFunction e \<and> shadowPermitted e"
    for e :: element
  define J where "J c e \<longleftrightarrow> shadow e = OpenShadow [style_node c]" for c and e :: element
  have ret1: "returned (for_hosts css1 wait waitTimeout HOST_IDS doc evs []) = Fulfilled rs"
    using assms(6) by (simp add: injectCssIntoPlasmoHost_def)
  have ret2: "returned (for_hosts css2 wait waitTimeout HOST_IDS ?d1 evs' []) = Fulfilled rs'"
    using assms(7) by (simp add: injectCssIntoPlasmoHost_def)
  have fresh: "J c (fst (inject_into c e)) \<and> snd (inject_into c e) = Inr ''attached-new-open-shadowRoot''"
    if "I e" for c e
    using that by (simp add: I_def J_def inject_into_fresh)
  have again: "J c (fst (inject_into c e))" if "J c' e" for c c' e
    using that by (simp add: J_def inject_into_open upsert_style_node)
  have tag: "snd (inject_into c e) = Inr ''existing-open-shadowRoot''" if "J c' e" for c c' e
    using that by (simp add: J_def inject_into_open)
  have I0: "I (doc ! i)" using assms(3,4,5) by (simp add: I_def)
  from for_hosts_records_first[of I "J css1" css1 "Inr ''attached-new-open-shadowRoot''"
      "Inr ''existing-open-shadowRoot''", OF fresh again tag assms(2) I0 assms(1) ret1]
  have recs1: "filter (\<lambda>r. hostId r = h) rs =
           success h ''attached-new-open-shadowRoot'' #
           replicate (count_list HOST_IDS h - 1) (success h ''existing-open-shadowRoot'')"
    by (simp add: record_of_def)
  have "J css1 (?d1 ! i)"
  proof (rule for_hosts_establish[of "\<lambda>e. I e \<or> J css1 e" "J css1" css1,
        OF _ _ assms(2) _ assms(1) ret1])
    show "J css1 (fst (inject_into css1 e))" if "I e \<or> J css1 e" for e
      using that fresh again by blast
    show "I e \<or> J css1 e" if "J css1 e" for e using that by simp
    show "I (doc ! i) \<or> J css1 (doc ! i)" using I0 by simp
  qed
  then have J1: "shadow (?d1 ! i) = OpenShadow [style_node css1]" by (simp add: J_def)
  from for_hosts_query[OF assms(2)]
  have q1: "querySelector ?d1 (selector_of h) = Inr (Some i)" .
  have "J css2 (?d2 ! i)"
  proof (rule for_hosts_establish[of "\<lambda>e. J css1 e \<or> J css2 e" "J css2" css2,
        OF _ _ q1 _ assms(1) ret2])
    show "J css2 (fst (inject_into css2 e))" if "J css1 e \<or> J css2 e" for e
      using that again by blast
    show "J css1 e \<or> J css2 e" if "J css2 e" for e using that by simp
    show "J css1 (?d1 ! i) \<or> J css2 (?d1 ! i)" using \<open>J css1 (?d1 ! i)\<close> by simp
  qed
  then have J2: "shadow (?d2 ! i) = OpenShadow [style_node css2]" by (simp add: J_def)
  from J1 have open1: "\<exists>x. shadow (?d1 ! i) = OpenShadow x" by simp
  from for_hosts_records_same[of "\<lambda>e::element. \<exists>x. shadow e = OpenShadow x" css2
      "Inr ''existing-open-shadowRoot''", OF inject_into_keeps_open inject_into_open_tag
      q1 open1 ret2]
  have recs2: "filter (\<lambda>r. hostId r = h) rs' =
           replicate (count_list HOST_IDS h) (success h ''existing-open-shadowRoot'')"
    by (simp add: record_of_def)
  from recs1 J1 recs2 J2 show ?thesis by (simp add: injectCssIntoPlasmoHost_def)
qed

theorem fresh_host_then_update_witness:
  "underline \<in> set HOST_IDS \<and>
   querySelector [plasmo_host underline NoShadow] (selector_of underline) = Inr (Some 0) \<and>
   shadow ([plasmo_host underline NoShadow] ! 0) = NoShadow \<and>
   attachShadowIsFunction ([plasmo_host underline NoShadow] ! 0) \<and>
   shadowPermitted ([plasmo_host underline NoShadow] ! 0) \<and>
   returned (injectCssIntoPlasmoHost ''a'' False 0 [plasmo_host underline NoShadow] []) =
     Fulfilled [failure sidebar ''host-not-found'',
                success underline ''attached-new-open-shadowRoot'',
                failure sidebar ''host-not-found''] \<and>
   returned (injectCssIntoPlasmoHost ''b'' False 0
      (dom (injectCssIntoPlasmoHost ''a'' False 0 [plasmo_host underline NoShadow] [])) []) =
     Fulfilled [failure sidebar ''host-not-found'',
                success underline ''existing-open-shadowRoot'',
                failure sidebar ''host-not-found''] \<and>
   shadow (dom (injectCssIntoPlasmoHost ''b'' False 0
      (dom (injectCssIntoPlasmoHost ''a'' False 0 [plasmo_host underline NoShadow] [])) []) ! 0) =
     OpenShadow [style_node ''b'']"
proof -
  let ?doc = "[plasmo_host underline NoShadow]"
  have h1: "underline \<in> set HOST_IDS" by (simp add: eval_defs)
  have h2: "querySelector ?doc (selector_of underline) = Inr (Some 0)" by (simp add: eval_defs)
  have h3: "shadow (?doc ! 0) = NoShadow" by (simp add: eval_defs)
  have h4: "attachShadowIsFunction (?doc ! 0)" by (simp add: eval_defs)
  have h5: "shadowPermitted (?doc ! 0)" by (simp add: eval_defs)
  have h6: "returned (injectCssIntoPlasmoHost ''a'' False 0 ?doc []) =
     Fulfilled [failure sidebar ''host-not-found'',
                success underline ''attached-new-open-shadowRoot'',
                failure sidebar ''host-not-found'']"
    by (simp add: eval_defs)
  have h7: "returned (injectCssIntoPlasmoHost ''b'' False 0
      (dom (injectCssIntoPlasmoHost ''a'' False 0 ?doc [])) []) =
     Fulfilled [failure sidebar ''host-not-found'',
                success underline ''existing-open-shadowRoot'',
                failure sidebar ''host-not-found'']"
    by (simp add: eval_defs)
  from fresh_host_then_update[OF h1 h2 h3 h4 h5 h6 h7] h1 h2 h3 h4 h5 h6 h7
  show ?thesis by simp
qed

subsection \<open>The list of results\<close>



subsection \<open>No exception leaves the batch\<close>

text \<open>
  C7, as it stands, fails for the input \<^verbatim>\<open>null\<close> as the options: destructuring it
  throws, and the promise of the call is rejected with the TypeError before the loop
  starts.
\<close>

theorem null_options_counterexample:
  "call_with_options ''c'' NullOptions [] [] =
     \<lparr>returned = Rejected TypeError, dom = [], pushed = []\<rparr>"
  by (simp add: call_with_options_def)

text \<open>
  C7, amended. For every CSS text, every options argument other than \<^verbatim>\<open>null\<close> and
  every document, the promise of \<^verbatim>\<open>injectCssIntoPlasmoHost\<close> is never rejected: no
  exception leaves the function. If the call does not wait, or the wait for each
  identifier settles, it is fulfilled with a list that has one well-formed record per
  entry of \<open>HOST_IDS\<close>. Every failure of an iteration is caught or handled, pushes a
  record marked unsuccessful, and the loop goes on with the next identifier on the
  document and the events as they are then: an exception of the host lookup, which is
  what a wait rejected by its timeout throws into the \<^verbatim>\<open>try\<close>, gives the reason
  host-not-found; so does a lookup without waiting that finds nothing; an
  \<^verbatim>\<open>attachShadow\<close> that raises gives attach-failed; a host with no accessible shadow
  root and no \<^verbatim>\<open>attachShadow\<close> function gives closed-or-no-attach.
\<close>

theorem no_exception_escapes:
  "returned (injectCssIntoPlasmoHost cssText wait waitTimeout doc evs) \<noteq> Rejected err \<and>
   (opts \<noteq> NullOptions \<longrightarrow>
      returned (call_with_options cssText opts doc evs) \<noteq> Rejected err) \<and>
   ((wait \<longrightarrow> waits_settle waitTimeout HOST_IDS doc evs) \<longrightarrow>
      (\<exists>rs. returned (injectCssIntoPlasmoHost cssText wait waitTimeout doc evs) = Fulfilled rs \<and>
            length rs = length HOST_IDS \<and> map hostId rs = HOST_IDS \<and>
            list_all well_formed rs)) \<and>
   (await (selector_of h) doc (waitForElement (selector_of h) waitTimeout doc) evs =
      (st, doc', evs') \<and> outcome st = Rejected e \<longrightarrow>
    for_hosts cssText True waitTimeout (h # hs) doc evs acc =
      for_hosts cssText True waitTimeout hs doc' evs' (acc @ [failure h ''host-not-found''])) \<and>
   (find_host wait waitTimeout (selector_of h) doc evs = (Some (Inl e), doc', evs') \<longrightarrow>
    for_hosts cssText wait waitTimeout (h # hs) doc evs acc =
      for_hosts cssText wait waitTimeout hs doc' evs' (acc @ [failure h ''host-not-found''])) \<and>
   (find_host wait waitTimeout (selector_of h) doc evs = (Some (Inr None), doc', evs') \<longrightarrow>
    for_hosts cssText wait waitTimeout (h # hs) doc evs acc =
      for_hosts cssText wait waitTimeout hs doc' evs' (acc @ [failure h ''host-not-found''])) \<and>
   (find_host wait waitTimeout (selector_of h) doc evs = (Some (Inr (Some i)), doc', evs') \<and>
    shadowRoot (doc' ! i) = None \<and> attachShadowIsFunction (doc' ! i) \<and>
    attachShadow (doc' ! i) = Inl e \<longrightarrow>
    for_hosts cssText wait waitTimeout (h # hs) doc evs acc =
      for_hosts cssText wait waitTimeout hs doc' evs' (acc @ [failure h ''attach-failed''])) \<and>
   (find_host wait waitTimeout (selector_of h) doc evs = (Some (Inr (Some i)), doc', evs') \<and>
    shadowRoot (doc' ! i) = None \<and> \<not> attachShadowIsFunction (doc' ! i) \<longrightarrow>
    for_hosts cssText wait waitTimeout (h # hs) doc evs acc =
      for_hosts cssText wait waitTimeout hs doc' evs' (acc @ [failure h ''closed-or-no-attach'']))"
proof -
  let ?r = "returned (injectCssIntoPlasmoHost cssText wait waitTimeout doc evs)"
  have one: "?r \<noteq> Rejected err"
    by (simp add: injectCssIntoPlasmoHost_def for_hosts_not_rejected)
  have opt: "returned (call_with_options cssText opts doc evs) \<noteq> Rejected err"
    if "opts \<noteq> NullOptions"
    using that
    by (cases opts)
       (simp_all add: call_with_options_def injectCssIntoPlasmoHost_def for_hosts_not_rejected)
  have two: "\<exists>rs. ?r = Fulfilled rs \<and> length rs = length HOST_IDS \<and> map hostId rs = HOST_IDS \<and>
            list_all well_formed rs" if "wait \<longrightarrow> waits_settle waitTimeout HOST_IDS doc evs"
  proof -
    have same: "list_all2 same_host doc doc"
      by (simp add: list_all2_conv_all_nth same_host_def)
    have "returned (for_hosts cssText wait waitTimeout HOST_IDS doc evs []) \<noteq> Pending"
    proof (cases wait)
      case True
      with that for_hosts_settles[OF same, of waitTimeout HOST_IDS evs cssText "[]"]
      show ?thesis by simp
    next
      case False
      then show ?thesis by (simp add: for_hosts_nowait)
    qed
    from for_hosts_fulfilled[OF this] obtain rs where
      rs: "returned (for_hosts cssText wait waitTimeout HOST_IDS doc evs []) = Fulfilled rs"
      by blast
    from for_hosts_ids[OF rs] have ids: "map hostId rs = HOST_IDS" "list_all well_formed rs"
      by simp_all
    from ids(1) have "length rs = length HOST_IDS" by (metis length_map)
    with rs ids show ?thesis by (simp add: injectCssIntoPlasmoHost_def)
  qed
  have three: "for_hosts cssText True waitTimeout (h # hs) doc evs acc =
      for_hosts cssText True waitTimeout hs doc' evs' (acc @ [failure h ''host-not-found''])"
    if "await (selector_of h) doc (waitForElement (selector_of h) waitTimeout doc) evs =
      (st, doc', evs')" and "outcome st = Rejected e"
    using that by (simp add: host_step_def find_host_def)
  have four: "for_hosts cssText wait waitTimeout (h # hs) doc evs acc =
      for_hosts cssText wait waitTimeout hs doc' evs' (acc @ [failure h ''host-not-found''])"
    if "find_host wait waitTimeout (selector_of h) doc evs = (Some (Inl e), doc', evs')"
    using that by (simp add: host_step_def)
  have five: "for_hosts cssText wait waitTimeout (h # hs) doc evs acc =
      for_hosts cssText wait waitTimeout hs doc' evs' (acc @ [failure h ''host-not-found''])"
    if "find_host wait waitTimeout (selector_of h) doc evs = (Some (Inr None), doc', evs')"
    using that by (simp add: host_step_def)
  have six: "for_hosts cssText wait waitTimeout (h # hs) doc evs acc =
      for_hosts cssText wait waitTimeout hs doc' evs' (acc @ [failure h ''attach-failed''])"
    if "find_host wait waitTimeout (selector_of h) doc evs = (Some (Inr (Some i)), doc', evs')"
      and "shadowRoot (doc' ! i) = None" and "attachShadowIsFunction (doc' ! i)"
      and "attachShadow (doc' ! i) = Inl e"
    using that by (simp add: host_step_def inject_into_def)
  have seven: "for_hosts cssText wait waitTimeout (h # hs) doc evs acc =
      for_hosts cssText wait waitTimeout hs doc' evs' (acc @ [failure h ''closed-or-no-attach''])"
    if "find_host wait waitTimeout (selector_of h) doc evs = (Some (Inr (Some i)), doc', evs')"
      and "shadowRoot (doc' ! i) = None" and "\<not> attachShadowIsFunction (doc' ! i)"
    using that by (simp add: host_step_def inject_into_def)
  from one opt two three four five six seven show ?thesis by blast
qed

theorem no_exception_escapes_witness:
  "waits_settle 8000 HOST_IDS [] [TimerFired, TimerFired, TimerFired] \<and>
   await (selector_of sidebar) [] (waitForElement (selector_of sidebar) 8000 [])
      [TimerFired, TimerFired, TimerFired] =
     (\<lparr>outcome = Rejected (Error ''Timed out waiting for plasmo-csui#qaiSidebarShadowHostEl''),
       observers = 1, connected = False, disconnects = 1, timer_armed = False\<rparr>,
      [], [TimerFired, TimerFired]) \<and>
   returned (injectCssIntoPlasmoHost ''c'' True 8000 [] [TimerFired, TimerFired, TimerFired]) =
     Fulfilled [failure sidebar ''host-not-found'', failure underline ''host-not-found'',
                failure sidebar ''host-not-found''] \<and>
   for_hosts ''c'' True 8000 [sidebar, underline] [] [TimerFired, TimerFired, TimerFired] [] =
     for_hosts ''c'' True 8000 [underline] [] [TimerFired, TimerFired]
       [failure sidebar ''host-not-found''] \<and>
   returned (injectCssIntoPlasmoHost ''c'' False 0 closed_doc []) =
     Fulfilled [failure sidebar ''attach-failed'', failure underline ''host-not-found'',
                failure sidebar ''attach-failed''] \<and>
   returned (call_with_options ''c'' (Options (Some False) None) closed_doc []) =
     Fulfilled [failure sidebar ''attach-failed'', failure underline ''host-not-found'',
                failure sidebar ''attach-failed'']"
proof -
  have ws: "waits_settle 8000 HOST_IDS [] [TimerFired, TimerFired, TimerFired]"
    by (simp add: eval_defs)
  have aw: "await (selector_of sidebar) [] (waitForElement (selector_of sidebar) 8000 [])
      [TimerFired, TimerFired, TimerFired] =
     (\<lparr>outcome = Rejected (Error ''Timed out waiting for plasmo-csui#qaiSidebarShadowHostEl''),
       observers = 1, connected = False, disconnects = 1, timer_armed = False\<rparr>,
      [], [TimerFired, TimerFired])"
    by (simp add: eval_defs)
  have run: "returned (injectCssIntoPlasmoHost ''c'' True 8000 [] [TimerFired, TimerFired, TimerFired]) =
     Fulfilled [failure sidebar ''host-not-found'', failure underline ''host-not-found'',
                failure sidebar ''host-not-found'']"
    by (simp add: eval_defs)
  have nowait: "returned (injectCssIntoPlasmoHost ''c'' False 0 closed_doc []) =
     Fulfilled [failure sidebar ''attach-failed'', failure underline ''host-not-found'',
                failure sidebar ''attach-failed'']"
    by (simp add: eval_defs closed_doc_def)
  have call: "call_with_options ''c'' (Options (Some False) None) closed_doc [] =
     injectCssIntoPlasmoHost ''c'' False 5000 closed_doc []"
    by (simp add: call_with_options_def)
  have nowait': "returned (injectCssIntoPlasmoHost ''c'' False 5000 closed_doc []) =
     Fulfilled [failure sidebar ''attach-failed'', failure underline ''host-not-found'',
                failure sidebar ''attach-failed'']"
    by (simp add: eval_defs closed_doc_def)
  from no_exception_escapes[of "''c''" True 8000 "[]" "[TimerFired, TimerFired, TimerFired]"
      NotSupportedError "Options (Some False) None" sidebar
      "\<lparr>outcome = Rejected (Error ''Timed out waiting for plasmo-csui#qaiSidebarShadowHostEl''),
        observers = 1, connected = False, disconnects = 1, timer_armed = False\<rparr>"
      "[]" "[TimerFired, TimerFired]"
      "Error ''Timed out waiting for plasmo-csui#qaiSidebarShadowHostEl''" "[underline]" "[]"]
    ws aw run nowait call nowait'
  show ?thesis by simp
qed

subsection \<open>When a wait rejects\<close>




subsection \<open>Waiting without a timeout\<close>

text \<open>
  C9. With \<open>wait\<close> true and a timeout of zero or less, if no element of the document
  and no element ever inserted matches the selector of some configured identifier,
  the promise of \<^verbatim>\<open>injectCssIntoPlasmoHost\<close> is pending after every list of events: no
  list of results is produced. The records pushed so far are those of a prefix of
  \<open>HOST_IDS\<close> that ends before the first entry of the missing identifier, so that
  entry and the entries after it are never treated.
\<close>

theorem missing_host_suspends_forever:
  assumes "waitTimeout \<le> 0" and "h \<in> set HOST_IDS"
    and "\<forall>e\<in>set doc. \<not> matches (selector_of h) e"
    and "\<forall>e\<in>set (added evs). \<not> matches (selector_of h) e"
  shows "returned (injectCssIntoPlasmoHost cssText True waitTimeout doc evs) = Pending \<and>
         (\<exists>k\<le>length (takeWhile (\<lambda>x. x \<noteq> h) HOST_IDS).
            map hostId (pushed (injectCssIntoPlasmoHost cssText True waitTimeout doc evs)) =
              take k HOST_IDS)"
proof -
  from assms(3,4) have lists: "list_all (\<lambda>e. \<not> matches (selector_of h) e) doc"
    "list_all (\<lambda>e. \<not> matches (selector_of h) e) (added evs)"
    by (simp_all add: list_all_iff)
  from HOST_IDS_names[OF assms(2)] have "h \<noteq> []"
    by (auto simp: id_name_def)
  from for_hosts_suspended[OF assms(1) this assms(2) lists, of cssText "[]"] show ?thesis
    by (simp add: injectCssIntoPlasmoHost_def)
qed

theorem missing_host_suspends_forever_witness:
  "underline \<in> set HOST_IDS \<and>
   takeWhile (\<lambda>x. x \<noteq> underline) HOST_IDS = [sidebar] \<and>
   injectCssIntoPlasmoHost ''c'' True 0 [plasmo_host sidebar NoShadow]
       [TimerFired, Added (plasmo_host ''other'' NoShadow), TimerFired] =
     \<lparr>returned = Pending,
      dom = [plasmo_host sidebar (OpenShadow [style_node ''c'']), plasmo_host ''other'' NoShadow],
      pushed = [success sidebar ''attached-new-open-shadowRoot'']\<rparr> \<and>
   returned (injectCssIntoPlasmoHost ''c'' True 0 [plasmo_host sidebar NoShadow]
       [TimerFired, Added (plasmo_host ''other'' NoShadow), TimerFired]) = Pending"
proof -
  let ?doc = "[plasmo_host sidebar NoShadow]"
  let ?evs = "[TimerFired, Added (plasmo_host ''other'' NoShadow), TimerFired]"
  have h1: "(0::int) \<le> 0" by simp
  have h2: "underline \<in> set HOST_IDS" by (simp add: eval_defs)
  have h3: "\<forall>e\<in>set ?doc. \<not> matches (selector_of underline) e" by (simp add: eval_defs)
  have h4: "\<forall>e\<in>set (added ?evs). \<not> matches (selector_of underline) e" by (simp add: eval_defs)
  have tw: "takeWhile (\<lambda>x. x \<noteq> underline) HOST_IDS = [sidebar]" by (simp add: eval_defs)
  have run: "injectCssIntoPlasmoHost ''c'' True 0 ?doc ?evs =
     \<lparr>returned = Pending,
      dom = [plasmo_host sidebar (OpenShadow [style_node ''c'']), plasmo_host ''other'' NoShadow],
      pushed = [success sidebar ''attached-new-open-shadowRoot'']\<rparr>"
    by (simp add: eval_defs)
  from missing_host_suspends_forever[OF h1 h2 h3 h4, of "''c''"] h2 tw run
  show ?thesis by simp
qed

subsection \<open>The upsert is keyed on the id\<close>



end
